theory Spec2Isabelle
  imports Main "HOL-Library.Word" "HOL-Library.Signed_Division"
begin

unbundle bit_operations_syntax

section \<open>The GC CPU limiter (runtime/mgclimit.go)\<close>

text \<open>
  The limiter state \<open>gcCPULimiterState\<close>. Unsigned 64-bit fields are \<open>64 word\<close>
  read with the unsigned order; \<open>int64\<close> values are \<open>64 word\<close> read with the
  signed order (\<open><s\<close>, \<open>\<le>s\<close>); \<open>nprocs\<close> is an \<open>int32\<close>. The atomic cells
  (\<open>lock\<close>, \<open>enabled\<close>, \<open>lastUpdate\<close>) are plain fields: every operation below
  runs with the lock held or fails to take it.
\<close>

record gcCPULimiterState =
  lock :: "32 word"
  enabled :: bool
  fill :: "64 word"
  capacity :: "64 word"
  overflow :: "64 word"
  gcEnabled :: bool
  transitioning :: bool
  lastTotalAssistTime :: "64 word"
  lastUpdate :: "64 word"
  nprocs :: "32 word"

text \<open>A \<open>throw\<close> of the runtime is fatal; it is the left summand of every result.\<close>

datatype fatal = Throw string

text \<open>\<open>capacityPerProc = 1e9\<close>: one second in nanoseconds.\<close>

definition capacityPerProc :: "64 word" where
  "capacityPerProc = 1000000000"

text \<open>
  \<open>accumulate(mutatorTime, gcTime)\<close>. The local \<open>enabled\<close> of the source is
  \<open>headroom == 0\<close>, computed from the bucket before it changes; the field
  \<open>l.enabled\<close> is only stored to when that local says it has to change.
  \<open>l.bucket.fill -= uint64(-change)\<close> is wrapping 64-bit subtraction.
\<close>

definition accumulate :: "64 word \<Rightarrow> 64 word \<Rightarrow> gcCPULimiterState \<Rightarrow> gcCPULimiterState" where
  "accumulate mutatorTime gcTime l =
    (let headroom = capacity l - fill l;
         en = (headroom = 0);
         change = gcTime - mutatorTime
     in if 0 <s change \<and> headroom \<le> change then
          (let l1 = l\<lparr>overflow := overflow l + (change - headroom)\<rparr>;
               l2 = l1\<lparr>fill := capacity l1\<rparr>
           in if \<not> en then l2\<lparr>enabled := True\<rparr> else l2)
        else
          (let l1 = (if change <s 0 \<and> fill l \<le> - change
                     then l\<lparr>fill := 0\<rparr>
                     else l\<lparr>fill := fill l - (- change)\<rparr>)
           in if change \<noteq> 0 \<and> en then l1\<lparr>enabled := False\<rparr> else l1))"

text \<open>\<open>tryLock\<close>: compare-and-swap of the lock word from 0 to 1.\<close>

definition tryLock :: "gcCPULimiterState \<Rightarrow> bool \<times> gcCPULimiterState" where
  "tryLock l = (if lock l = 0 then (True, l\<lparr>lock := 1\<rparr>) else (False, l))"

text \<open>\<open>unlock\<close>: swap 0 into the lock word and throw unless the old value was 1.\<close>

definition unlock :: "gcCPULimiterState \<Rightarrow> fatal + gcCPULimiterState" where
  "unlock l = (if lock l \<noteq> 1 then Inl (Throw ''double unlock'') else Inr (l\<lparr>lock := 0\<rparr>))"

text \<open>
  \<open>updateLocked(totalAssistTime, now)\<close>. The background share
  \<open>int64(float64(windowTotalTime) * gcBackgroundUtilization)\<close> is floating-point
  arithmetic on a constant declared elsewhere in the runtime; it is the parameter \<open>bg\<close>.
\<close>

definition updateLocked ::
  "(64 word \<Rightarrow> 64 word) \<Rightarrow> 64 word \<Rightarrow> 64 word \<Rightarrow> gcCPULimiterState \<Rightarrow> gcCPULimiterState" where
  "updateLocked bg totalAssistTime now l =
    (let lastUpd = lastUpdate l
     in if now <s lastUpd \<or> totalAssistTime <s lastTotalAssistTime l then l
        else
          (let windowTotalTime = (now - lastUpd) * scast (nprocs l);
               l1 = l\<lparr>lastUpdate := now\<rparr>
           in if \<not> gcEnabled l1 then accumulate windowTotalTime 0 l1
              else
                (let windowGCTime = (totalAssistTime - lastTotalAssistTime l1) + bg windowTotalTime;
                     l2 = accumulate (windowTotalTime - windowGCTime) windowGCTime l1
                 in l2\<lparr>lastTotalAssistTime := totalAssistTime\<rparr>)))"

text \<open>\<open>update\<close>: drops the update when the lock is taken; throws during a transition.\<close>

definition update ::
  "(64 word \<Rightarrow> 64 word) \<Rightarrow> 64 word \<Rightarrow> 64 word \<Rightarrow> gcCPULimiterState \<Rightarrow> fatal + gcCPULimiterState" where
  "update bg totalAssistTime now l =
    (case tryLock l of
       (False, l0) \<Rightarrow> Inr l0
     | (True, l1) \<Rightarrow>
         if transitioning l1 then Inl (Throw ''update during transition'')
         else unlock (updateLocked bg totalAssistTime now l1))"

text \<open>\<open>startGCTransition\<close>: takes the lock and keeps it; \<open>finishGCTransition\<close> releases it.\<close>

definition startGCTransition ::
  "(64 word \<Rightarrow> 64 word) \<Rightarrow> bool \<Rightarrow> 64 word \<Rightarrow> 64 word \<Rightarrow> gcCPULimiterState
    \<Rightarrow> fatal + gcCPULimiterState" where
  "startGCTransition bg enableGC totalAssistTime now l =
    (case tryLock l of
       (False, l0) \<Rightarrow> Inl (Throw ''failed to acquire lock to start a GC transition'')
     | (True, l1) \<Rightarrow>
         if gcEnabled l1 = enableGC then Inl (Throw ''transitioning GC to the same state as before?'')
         else
           (let l2 = updateLocked bg totalAssistTime now l1
            in if enableGC \<and> totalAssistTime \<noteq> 0
               then Inl (Throw ''assist time must be zero on entry to a GC cycle'')
               else Inr (l2\<lparr>gcEnabled := enableGC, transitioning := True\<rparr>)))"

definition finishGCTransition :: "64 word \<Rightarrow> gcCPULimiterState \<Rightarrow> fatal + gcCPULimiterState" where
  "finishGCTransition now l =
    (if \<not> transitioning l then Inl (Throw ''finishGCTransition called without starting one?'')
     else
       (let lastUpd = lastUpdate l;
            l1 = (if lastUpd \<le>s now then accumulate 0 ((now - lastUpd) * scast (nprocs l)) l else l);
            l2 = l1\<lparr>lastUpdate := now\<rparr>;
            l3 = l2\<lparr>transitioning := False\<rparr>;
            l4 = l3\<lparr>lastTotalAssistTime := 0\<rparr>
        in unlock l4))"

text \<open>
  \<open>resetCapacity(now, nprocs)\<close>. \<open>uint64(nprocs)\<close> sign-extends the \<open>int32\<close>; the
  product with \<open>capacityPerProc\<close> wraps at 64 bits.
\<close>

definition resetCapacity ::
  "(64 word \<Rightarrow> 64 word) \<Rightarrow> 64 word \<Rightarrow> 32 word \<Rightarrow> gcCPULimiterState \<Rightarrow> fatal + gcCPULimiterState" where
  "resetCapacity bg now np l =
    (case tryLock l of
       (False, l0) \<Rightarrow> Inl (Throw ''failed to acquire lock to reset capacity'')
     | (True, l1) \<Rightarrow>
         (let l2 = updateLocked bg 0 now l1;
              l3 = l2\<lparr>nprocs := np\<rparr>;
              l4 = l3\<lparr>capacity := scast np * capacityPerProc\<rparr>;
              l5 = (if capacity l4 < fill l4 then l4\<lparr>fill := capacity l4, enabled := True\<rparr>
                    else if fill l4 < capacity l4 then l4\<lparr>enabled := False\<rparr>
                    else l4)
          in unlock l5))"

text \<open>A run of \<open>accumulate\<close> calls, keeping the state after every call.\<close>

fun accumulate_trace ::
  "gcCPULimiterState \<Rightarrow> (64 word \<times> 64 word) list \<Rightarrow> gcCPULimiterState list" where
  "accumulate_trace l [] = []"
| "accumulate_trace l ((mutatorTime, gcTime) # cs) =
     accumulate mutatorTime gcTime l # accumulate_trace (accumulate mutatorTime gcTime l) cs"

text \<open>
  Limiter states and a background share used as concrete inputs below. \<open>quarterShare\<close>
  is a quarter of the window, truncated towards zero.
\<close>

definition quarterShare :: "64 word \<Rightarrow> 64 word" where
  "quarterShare w = word_of_int (sint w sdiv 4)"

definition ex_l0 :: gcCPULimiterState where
  "ex_l0 = \<lparr>lock = 1, enabled = False, fill = 5, capacity = 10, overflow = 0, gcEnabled = True,
     transitioning = False, lastTotalAssistTime = 0, lastUpdate = 0, nprocs = 1\<rparr>"

definition ex_zero_cap :: gcCPULimiterState where
  "ex_zero_cap = \<lparr>lock = 1, enabled = True, fill = 0, capacity = 0, overflow = 0, gcEnabled = False,
     transitioning = False, lastTotalAssistTime = 0, lastUpdate = 0, nprocs = 0\<rparr>"

definition ex_stale :: gcCPULimiterState where
  "ex_stale = \<lparr>lock = 0, enabled = False, fill = 7, capacity = 10, overflow = 0, gcEnabled = True,
     transitioning = False, lastTotalAssistTime = 4, lastUpdate = 10, nprocs = 1\<rparr>"

definition ex_stw :: gcCPULimiterState where
  "ex_stw = \<lparr>lock = 1, enabled = False, fill = 7, capacity = 10, overflow = 0, gcEnabled = True,
     transitioning = True, lastTotalAssistTime = 4, lastUpdate = 10, nprocs = 2\<rparr>"

definition ex_reset :: gcCPULimiterState where
  "ex_reset = \<lparr>lock = 0, enabled = False, fill = 1000000000, capacity = 2000000000, overflow = 0,
     gcEnabled = False, transitioning = False, lastTotalAssistTime = 0, lastUpdate = 0, nprocs = 2\<rparr>"

section \<open>The map (internal/runtime/maps)\<close>

text \<open>
  \<open>uintptr\<close> is 64 bits wide: \<open>h1\<close> keeps the upper 57 bits of a hash and
  \<open>depthToShift\<close> on a 64-bit target returns \<open>64 - depth\<close>.
\<close>

type_synonym uintptr = "64 word"

definition h1 :: "uintptr \<Rightarrow> uintptr" where
  "h1 h = drop_bit 7 h"

definition h2 :: "uintptr \<Rightarrow> uintptr" where
  "h2 h = h AND 0x7f"

text \<open>
  How an operation of the map can end without a result: a \<open>panic\<close>; an unchecked
  pointer access (\<open>directoryAt\<close>, \<open>directorySet\<close>) that leaves the directory array;
  or the table path (\<open>growToTable\<close>, \<open>table.PutSlot\<close>, \<open>table.Delete\<close>, ...), whose
  code lives in table.go and is outside this development.
\<close>

datatype stop = Panic string | Unsafe | TablePath

text \<open>
  Modelled from the spec: \<open>abi.SwissMapType\<close>, the type descriptor the map is
  constructed with (section 6: a hash function of key and seed, a key equality
  predicate, the memory clear primitive). \<open>zeroKey\<close> and \<open>zeroElem\<close> are what
  \<open>typedmemclr\<close> leaves in a key or element slot.
\<close>

record ('k, 'v) SwissMapType =
  Hasher :: "'k \<Rightarrow> uintptr \<Rightarrow> uintptr"
  KeyEqual :: "'k \<Rightarrow> 'k \<Rightarrow> bool"
  NeedKeyUpdate :: bool
  zeroKey :: 'k
  zeroElem :: 'v

subsection \<open>Control words and match sets (group.go)\<close>

text \<open>
  Modelled from the spec: the control word of a group and its match operations
  (group.go is not among the sources). A group has 8 slots and one control word of
  8 bytes, one byte per slot, each byte empty, deleted, or occupied with the 7-bit H2
  of the slot's key (spec sections 3 and 4.1). \<open>getWithKeySmall\<close> reads the control
  byte of slot \<open>i\<close> as bits \<open>8i .. 8i+7\<close> of the word, and \<open>growToTable\<close> tests
  a byte for "not occupied" with \<open>(c & ctrlEmpty) == ctrlEmpty\<close>: the top bit marks
  empty and deleted bytes, an occupied byte has it clear and holds H2 in the low 7 bits.
  \<open>ctrlEmpty\<close> is the top bit alone; \<open>ctrlDeleted\<close> is the tombstone, a different
  byte with the top bit set.
\<close>

type_synonym ctrl = "8 word"
type_synonym ctrlGroup = "64 word"

definition ctrlEmpty :: ctrl where
  "ctrlEmpty = 0x80"


text \<open>Modelled from the spec: \<open>ctrlGroup.get(i)\<close>, the control byte of slot \<open>i\<close>.\<close>

definition ctrlGroup_get :: "ctrlGroup \<Rightarrow> nat \<Rightarrow> ctrl" where
  "ctrlGroup_get g i = ucast (drop_bit (8 * i) g)"

text \<open>
  Modelled from the spec: \<open>ctrlGroup.set(i, c)\<close> "mutates one slot's control byte"
  and leaves the other seven.
\<close>

definition ctrlGroup_set :: "ctrlGroup \<Rightarrow> nat \<Rightarrow> ctrl \<Rightarrow> ctrlGroup" where
  "ctrlGroup_set g i c = (g AND NOT (push_bit (8 * i) 0xFF)) OR push_bit (8 * i) (ucast c)"

text \<open>Modelled from the spec: \<open>setEmpty\<close> resets the whole group: every byte is \<open>ctrlEmpty\<close>.\<close>

definition bitsetEmpty :: ctrlGroup where
  "bitsetEmpty = 0x8080808080808080"

text \<open>
  Modelled from the spec: a match result (\<open>bitset\<close>) is "a bitmask (one bit per slot)";
  bit \<open>i\<close> stands for slot \<open>i\<close>. \<open>match_upto P g n\<close> collects the slots below
  \<open>n\<close> whose control byte satisfies \<open>P\<close>. \<open>matchH2(h)\<close> is the set of slots whose
  control byte is occupied with H2 equal to \<open>h\<close> (callers confirm with the key
  comparison, since different keys share an H2); \<open>matchEmpty\<close> is the set of empty slots.
\<close>

type_synonym bitset = "8 word"

primrec match_upto :: "(ctrl \<Rightarrow> bool) \<Rightarrow> ctrlGroup \<Rightarrow> nat \<Rightarrow> bitset" where
  "match_upto P g 0 = 0"
| "match_upto P g (Suc n) =
     (if P (ctrlGroup_get g n) then set_bit n (match_upto P g n) else match_upto P g n)"

definition matchH2 :: "ctrlGroup \<Rightarrow> uintptr \<Rightarrow> bitset" where
  "matchH2 g h = match_upto (\<lambda>c. c = ucast h) g 8"

definition matchEmpty :: "ctrlGroup \<Rightarrow> bitset" where
  "matchEmpty g = match_upto (\<lambda>c. c = ctrlEmpty) g 8"

text \<open>
  Modelled from the spec: \<open>bitset.first()\<close> is the lowest slot of a match set (8, the
  group size, for the empty set) and \<open>removeFirst()\<close> drops that slot from the set.
\<close>

definition first :: "bitset \<Rightarrow> nat" where
  "first b = (case find (bit b) [0..<8] of Some i \<Rightarrow> i | None \<Rightarrow> 8)"

definition removeFirst :: "bitset \<Rightarrow> bitset" where
  "removeFirst b = unset_bit (first b) b"

text \<open>
  The group itself (the layout is repeated in reflectdata: \<open>ctrl uint64\<close> and
  \<open>slots [8]struct{key; elem}\<close>). \<open>g.key(i)\<close> is \<open>keys g ! i\<close> and \<open>g.elem(i)\<close>
  is \<open>elems g ! i\<close>.
\<close>

record ('k, 'v) group =
  ctrls :: ctrlGroup
  keys :: "'k list"
  elems :: "'v list"

subsection \<open>Map, directory and tables (map.go)\<close>

text \<open>
  A \<open>*table\<close> is an address; the tables live in a store from addresses to table
  objects, so that several directory entries can alias one table and \<open>t.index = ...\<close>
  is seen through all of them. Of a table only \<open>index\<close> (a Go \<open>int\<close>) and
  \<open>localDepth\<close> are read or written by the map layer.
\<close>

type_synonym tabref = nat

record table =
  index :: "64 word"
  localDepth :: "8 word"

text \<open>
  \<open>Map\<close>. The untyped \<open>dirPtr\<close> points to the single inline group when
  \<open>dirLen = 0\<close> and to the directory array otherwise; the two referents are the fields
  \<open>group\<close> and \<open>directory\<close>. \<open>dirLen\<close> is a Go \<open>int\<close>, stored beside the
  array. \<open>typ\<close> is passed to each operation.
\<close>

record ('k, 'v) Map =
  used :: "64 word"
  seed :: uintptr
  group :: "('k, 'v) group"
  directory :: "tabref list"
  dirLen :: "64 word"
  globalDepth :: "8 word"
  globalShift :: "8 word"
  clearSeq :: "64 word"

text \<open>\<open>depthToShift\<close>, with \<open>goarch.PtrSize\<close> as a parameter.\<close>

definition depthToShift :: "nat \<Rightarrow> 8 word \<Rightarrow> 8 word" where
  "depthToShift ptrSize depth = (if ptrSize = 4 then 32 - depth else 64 - depth)"

definition directoryIndex :: "('k, 'v) Map \<Rightarrow> uintptr \<Rightarrow> uintptr" where
  "directoryIndex m hash =
     (if dirLen m = 1 then 0 else drop_bit (unat (globalShift m AND 63)) hash)"

text \<open>
  \<open>directoryAt\<close> and \<open>directorySet\<close> are unchecked pointer arithmetic on
  \<open>dirPtr\<close>: an index outside the array is \<open>Unsafe\<close>.
\<close>

definition directoryAt :: "('k, 'v) Map \<Rightarrow> uintptr \<Rightarrow> stop + tabref" where
  "directoryAt m i =
     (if unat i < length (directory m) then Inr (directory m ! unat i) else Inl Unsafe)"

definition directorySet :: "('k, 'v) Map \<Rightarrow> uintptr \<Rightarrow> tabref \<Rightarrow> stop + ('k, 'v) Map" where
  "directorySet m i nt =
     (if unat i < length (directory m) then Inr (m\<lparr>directory := (directory m)[unat i := nt]\<rparr>)
      else Inl Unsafe)"

definition Used :: "('k, 'v) Map \<Rightarrow> 64 word" where
  "Used m = used m"

subsection \<open>The small-map path\<close>

text \<open>
  \<open>getWithKeySmall\<close>: the loop over the 8 slots, shifting the control word down one
  byte per step. A hit returns the slot's key and element.
\<close>

function getWithKeySmall_loop ::
  "('k, 'v) SwissMapType \<Rightarrow> ('k, 'v) group \<Rightarrow> 8 word \<Rightarrow> 'k \<Rightarrow> ctrlGroup \<Rightarrow> nat
    \<Rightarrow> ('k \<times> 'v) option" where
  "getWithKeySmall_loop typ g h key cs i =
     (if i < 8 then
        (let c = (ucast cs :: 8 word);
             cs' = drop_bit 8 cs
         in if c \<noteq> h then getWithKeySmall_loop typ g h key cs' (Suc i)
            else if KeyEqual typ key (keys g ! i) then Some (keys g ! i, elems g ! i)
            else getWithKeySmall_loop typ g h key cs' (Suc i))
      else None)"
  by pat_completeness auto
termination
  by (relation "measure (\<lambda>(typ, g, h, key, cs, i). 8 - i)") auto

declare getWithKeySmall_loop.simps [simp del]

definition getWithKeySmall ::
  "('k, 'v) SwissMapType \<Rightarrow> ('k, 'v) Map \<Rightarrow> uintptr \<Rightarrow> 'k \<Rightarrow> ('k \<times> 'v) option" where
  "getWithKeySmall typ m hash key =
     getWithKeySmall_loop typ (group m) (ucast (h2 hash)) key (ctrls (group m)) 0"

text \<open>\<open>Get\<close> (through \<open>getWithoutKey\<close>): the element, or absence.\<close>

definition Get :: "('k, 'v) SwissMapType \<Rightarrow> ('k, 'v) Map \<Rightarrow> 'k \<Rightarrow> stop + 'v option" where
  "Get typ m key =
     (let hash = Hasher typ key (seed m)
      in if dirLen m = 0 then Inr (map_option snd (getWithKeySmall typ m hash key))
         else Inl TablePath)"

text \<open>
  The loop \<open>for match != 0 { i := match.first(); ...; match = match.removeFirst() }\<close>
  of \<open>putSlotSmall\<close> and \<open>deleteSmall\<close>: the first slot of the match set whose key
  equals \<open>key\<close>. Each round removes a slot from the set, which is the termination
  argument.
\<close>

lemma first_set: "b \<noteq> 0 \<Longrightarrow> bit b (first b) \<and> first b < 8"
proof -
  assume "b \<noteq> 0"
  then obtain n where n: "bit b n"
    by (auto simp: bit_eq_iff)
  then have "n < 8"
    using bit_imp_le_length [OF n] by simp
  then have "\<exists>x. x \<in> set [0..<8] \<and> bit b x"
    using n by auto
  then obtain i where fi: "find (bit b) [0..<8] = Some i"
    using find_None_iff [of "bit b" "[0..<8]"] by (cases "find (bit b) [0..<8]") auto
  then have "i < 8 \<and> bit b i"
    unfolding find_Some_iff by auto
  then show ?thesis
    by (simp add: first_def fi)
qed

lemma removeFirst_less: "b \<noteq> 0 \<Longrightarrow> unat (removeFirst b) < unat b"
proof -
  assume b: "b \<noteq> 0"
  have s: "bit b (first b)"
    using first_set [OF b] by simp
  have "removeFirst b \<le> b"
    unfolding removeFirst_def by (simp add: unset_bit_def word_and_le2)
  moreover have "removeFirst b \<noteq> b"
    using s first_set [OF b] by (simp add: removeFirst_def unset_bit_eq_idem_iff)
  ultimately show ?thesis
    by (simp add: word_less_nat_alt [symmetric])
qed

function matchLoop ::
  "('k, 'v) SwissMapType \<Rightarrow> ('k, 'v) group \<Rightarrow> 'k \<Rightarrow> bitset \<Rightarrow> nat option" where
  "matchLoop typ g key match =
     (if match \<noteq> 0 then
        (let i = first match
         in if KeyEqual typ key (keys g ! i) then Some i
            else matchLoop typ g key (removeFirst match))
      else None)"
  by pat_completeness auto
termination
  by (relation "measure (\<lambda>(typ, g, key, match). unat match)") (auto simp: removeFirst_less)

declare matchLoop.simps [simp del]

text \<open>
  \<open>putSlotSmall\<close> returns the map and the slot whose element the caller writes
  (the returned \<open>slotElem\<close> pointer).
\<close>

definition putSlotSmall ::
  "('k, 'v) SwissMapType \<Rightarrow> ('k, 'v) Map \<Rightarrow> uintptr \<Rightarrow> 'k \<Rightarrow> stop + ('k, 'v) Map \<times> nat" where
  "putSlotSmall typ m hash key =
     (let g = group m
      in case matchLoop typ g key (matchH2 (ctrls g) (h2 hash)) of
           Some i \<Rightarrow>
             Inr (if NeedKeyUpdate typ then m\<lparr>group := g\<lparr>keys := (keys g)[i := key]\<rparr>\<rparr> else m, i)
         | None \<Rightarrow>
             (let match = matchEmpty (ctrls g)
              in if match = 0 then Inl (Panic ''small map with no empty slot'')
                 else
                   (let i = first match;
                        g1 = g\<lparr>keys := (keys g)[i := key]\<rparr>;
                        g2 = g1\<lparr>ctrls := ctrlGroup_set (ctrls g1) i (ucast (h2 hash))\<rparr>
                    in Inr (m\<lparr>group := g2, used := used m + 1\<rparr>, i))))"

text \<open>
  \<open>PutSlot\<close>: a small map with 8 entries grows to a table before the insert, also
  when the key is already present; from there on the table path runs.
\<close>

definition PutSlot ::
  "('k, 'v) SwissMapType \<Rightarrow> ('k, 'v) Map \<Rightarrow> 'k \<Rightarrow> stop + ('k, 'v) Map \<times> nat" where
  "PutSlot typ m key =
     (let hash = Hasher typ key (seed m)
      in if dirLen m = 0 then
           (if used m < 8 then putSlotSmall typ m hash key else Inl TablePath)
         else Inl TablePath)"

definition Put ::
  "('k, 'v) SwissMapType \<Rightarrow> ('k, 'v) Map \<Rightarrow> 'k \<Rightarrow> 'v \<Rightarrow> stop + ('k, 'v) Map" where
  "Put typ m key elem =
     (case PutSlot typ m key of
        Inl e \<Rightarrow> Inl e
      | Inr (m', i) \<Rightarrow> Inr (m'\<lparr>group := (group m')\<lparr>elems := (elems (group m'))[i := elem]\<rparr>\<rparr>))"

definition deleteSmall ::
  "('k, 'v) SwissMapType \<Rightarrow> ('k, 'v) Map \<Rightarrow> uintptr \<Rightarrow> 'k \<Rightarrow> ('k, 'v) Map" where
  "deleteSmall typ m hash key =
     (let g = group m
      in case matchLoop typ g key (matchH2 (ctrls g) (h2 hash)) of
           Some i \<Rightarrow>
             (let m1 = m\<lparr>used := used m - 1\<rparr>;
                  g1 = g\<lparr>keys := (keys g)[i := zeroKey typ]\<rparr>;
                  g2 = g1\<lparr>elems := (elems g1)[i := zeroElem typ]\<rparr>;
                  g3 = g2\<lparr>ctrls := ctrlGroup_set (ctrls g2) i ctrlEmpty\<rparr>
              in m1\<lparr>group := g3\<rparr>)
         | None \<Rightarrow> m)"

definition Delete :: "('k, 'v) SwissMapType \<Rightarrow> ('k, 'v) Map \<Rightarrow> 'k \<Rightarrow> stop + ('k, 'v) Map" where
  "Delete typ m key =
     (let hash = Hasher typ key (seed m)
      in if dirLen m = 0 then Inr (deleteSmall typ m hash key) else Inl TablePath)"

text \<open>\<open>clearSmall\<close>: the group's memory is cleared, then the control word set empty.\<close>

definition clearSmall :: "('k, 'v) SwissMapType \<Rightarrow> ('k, 'v) Map \<Rightarrow> ('k, 'v) Map" where
  "clearSmall typ m =
     (let g0 = \<lparr>ctrls = 0, keys = replicate 8 (zeroKey typ), elems = replicate 8 (zeroElem typ)\<rparr>;
          g1 = g0\<lparr>ctrls := bitsetEmpty\<rparr>
      in m\<lparr>group := g1, used := 0, clearSeq := clearSeq m + 1\<rparr>)"

definition Clear :: "('k, 'v) SwissMapType \<Rightarrow> ('k, 'v) Map \<Rightarrow> stop + ('k, 'v) Map" where
  "Clear typ m = (if dirLen m = 0 then Inr (clearSmall typ m) else Inl TablePath)"

text \<open>Sequences of map operations; a run ends at the first operation that stops.\<close>

datatype ('k, 'v) mapOp = OpPut 'k 'v | OpPutSlot 'k | OpDelete 'k | OpClear

fun applyOp :: "('k, 'v) SwissMapType \<Rightarrow> ('k, 'v) Map \<Rightarrow> ('k, 'v) mapOp \<Rightarrow> stop + ('k, 'v) Map" where
  "applyOp typ m (OpPut k v) = Put typ m k v"
| "applyOp typ m (OpPutSlot k) = map_sum id fst (PutSlot typ m k)"
| "applyOp typ m (OpDelete k) = Delete typ m k"
| "applyOp typ m OpClear = Clear typ m"

fun applyOps ::
  "('k, 'v) SwissMapType \<Rightarrow> ('k, 'v) Map \<Rightarrow> ('k, 'v) mapOp list \<Rightarrow> stop + ('k, 'v) Map" where
  "applyOps typ m [] = Inr m"
| "applyOps typ m (x # xs) =
     (case applyOp typ m x of Inl e \<Rightarrow> Inl e | Inr m' \<Rightarrow> applyOps typ m' xs)"

subsection \<open>What a small map holds\<close>

text \<open>
  A slot is occupied when its control byte fails the test \<open>growToTable\<close> uses for an
  empty slot. \<open>contents\<close> is the finite map a group represents: the element of the
  occupied slot holding the key. \<open>small_inv\<close> is the invariant of the small-map path:
  no directory, 8 slots, every control byte empty or the H2 of its slot's key, no key
  in two occupied slots, and \<open>used\<close> counting the occupied slots.
\<close>

definition occupied :: "ctrlGroup \<Rightarrow> nat \<Rightarrow> bool" where
  "occupied cs i \<longleftrightarrow> ctrlGroup_get cs i AND ctrlEmpty \<noteq> ctrlEmpty"

definition numOccupied :: "ctrlGroup \<Rightarrow> nat" where
  "numOccupied cs = length (filter (occupied cs) [0..<8])"

definition slotOf :: "('k, 'v) group \<Rightarrow> 'k \<Rightarrow> nat option" where
  "slotOf g k = find (\<lambda>i. occupied (ctrls g) i \<and> keys g ! i = k) [0..<8]"

definition contents :: "('k, 'v) group \<Rightarrow> 'k \<Rightarrow> 'v option" where
  "contents g k = map_option (\<lambda>i. elems g ! i) (slotOf g k)"

definition small_inv :: "('k, 'v) SwissMapType \<Rightarrow> ('k, 'v) Map \<Rightarrow> bool" where
  "small_inv typ m \<longleftrightarrow>
     dirLen m = 0 \<and>
     length (keys (group m)) = 8 \<and> length (elems (group m)) = 8 \<and>
     (\<forall>i<8. ctrlGroup_get (ctrls (group m)) i = ctrlEmpty \<or>
            ctrlGroup_get (ctrls (group m)) i = ucast (h2 (Hasher typ (keys (group m) ! i) (seed m)))) \<and>
     (\<forall>i<8. \<forall>j<8. occupied (ctrls (group m)) i \<and> occupied (ctrls (group m)) j \<and>
            keys (group m) ! i = keys (group m) ! j \<longrightarrow> i = j) \<and>
     unat (used m) = numOccupied (ctrls (group m))"

text \<open>
  Concrete inputs: a map type over \<open>nat\<close> keys whose hash is the key plus the seed; an
  empty small map; and the small map that seven insertions of the keys 0 to 6 make
  of it.
\<close>

definition natType :: "(nat, nat) SwissMapType" where
  "natType = \<lparr>Hasher = (\<lambda>k s. of_nat k + s), KeyEqual = (=), NeedKeyUpdate = False,
     zeroKey = 0, zeroElem = 0\<rparr>"

definition emptySmall :: "(nat, nat) Map" where
  "emptySmall = \<lparr>used = 0, seed = 0,
     group = \<lparr>ctrls = bitsetEmpty, keys = replicate 8 0, elems = replicate 8 0\<rparr>,
     directory = [], dirLen = 0, globalDepth = 0, globalShift = 64, clearSeq = 0\<rparr>"

definition sevenSmall :: "(nat, nat) Map" where
  "sevenSmall = \<lparr>used = 7, seed = 0,
     group = \<lparr>ctrls = 0x8006050403020100, keys = [0, 1, 2, 3, 4, 5, 6, 0], elems = replicate 8 0\<rparr>,
     directory = [], dirLen = 0, globalDepth = 0, globalShift = 64, clearSeq = 0\<rparr>"

text \<open>A map with a directory of four entries over three tables (\<open>globalDepth = 2\<close>).\<close>

definition dirMap :: "(nat, nat) Map" where
  "dirMap = \<lparr>used = 0, seed = 0,
     group = \<lparr>ctrls = 0, keys = [], elems = []\<rparr>,
     directory = [1, 1, 2, 3], dirLen = 4, globalDepth = 2, globalShift = 62, clearSeq = 0\<rparr>"

section \<open>P-521 point decoding (crypto/elliptic/internal/nistec)\<close>

text \<open>
  \<open>fiat.P521Element\<close> and its operations are another package; \<open>SetBytes\<close> and
  \<open>p521CheckOnCurve\<close> take them as the parameter \<open>F\<close>. An \<open>error\<close> is its
  message. \<open>elemSetBytes\<close> is \<open>new(fiat.P521Element).SetBytes\<close>, which fails on a
  malformed encoding.
\<close>

record 'e fiatP521 =
  elemSetBytes :: "8 word list \<Rightarrow> string + 'e"
  elemZero :: 'e
  elemOne :: 'e
  elemAdd :: "'e \<Rightarrow> 'e \<Rightarrow> 'e"
  elemSub :: "'e \<Rightarrow> 'e \<Rightarrow> 'e"
  elemMul :: "'e \<Rightarrow> 'e \<Rightarrow> 'e"
  elemEqual :: "'e \<Rightarrow> 'e \<Rightarrow> bool"
  p521B :: 'e

definition p521ElementLength :: nat where
  "p521ElementLength = 66"

text \<open>
  A point in projective coordinates \<open>(X:Y:Z)\<close>; the fields \<open>x\<close>, \<open>y\<close>, \<open>z\<close>
  of the source are \<open>px\<close>, \<open>py\<close>, \<open>pz\<close>.
\<close>

record 'e P521Point =
  px :: 'e
  py :: 'e
  pz :: 'e

definition NewP521Point :: "'e fiatP521 \<Rightarrow> 'e P521Point" where
  "NewP521Point F = \<lparr>px = elemZero F, py = elemOne F, pz = elemZero F\<rparr>"

text \<open>\<open>p521CheckOnCurve\<close>: \<open>y\<^sup>2 = x\<^sup>3 - 3x + b\<close>, or an error.\<close>

definition p521CheckOnCurve :: "'e fiatP521 \<Rightarrow> 'e \<Rightarrow> 'e \<Rightarrow> string option" where
  "p521CheckOnCurve F xe ye =
     (let x3 = elemMul F (elemMul F xe xe) xe;
          threeX = elemAdd F (elemAdd F xe xe) xe;
          x3' = elemAdd F (elemSub F x3 threeX) (p521B F);
          y2 = elemMul F ye ye
      in if \<not> elemEqual F x3' y2 then Some ''P521 point not on curve'' else None)"

text \<open>
  \<open>SetBytes\<close> returns \<open>(nil, err)\<close> or \<open>(p, nil)\<close> and may assign to the receiver:
  the result is the pair of the returned value (\<open>Inl err\<close>, or \<open>Inr\<close> of the point
  returned) and the receiver after the call. The cases of the \<open>switch\<close> are tried in
  the source's order; \<open>b[0]\<close> is only read behind a length test.
\<close>

definition SetBytes ::
  "'e fiatP521 \<Rightarrow> 'e P521Point \<Rightarrow> 8 word list \<Rightarrow> (string + 'e P521Point) \<times> 'e P521Point" where
  "SetBytes F p b =
     (if length b = 1 \<and> b ! 0 = 0 then
        (let p' = NewP521Point F in (Inr p', p'))
      else if length b = 1 + 2 * p521ElementLength \<and> b ! 0 = 4 then
        (case elemSetBytes F (take p521ElementLength (drop 1 b)) of
           Inl err \<Rightarrow> (Inl err, p)
         | Inr xe \<Rightarrow>
             (case elemSetBytes F (drop (1 + p521ElementLength) b) of
                Inl err \<Rightarrow> (Inl err, p)
              | Inr ye \<Rightarrow>
                  (case p521CheckOnCurve F xe ye of
                     Some err \<Rightarrow> (Inl err, p)
                   | None \<Rightarrow>
                       (let p' = p\<lparr>px := xe, py := ye, pz := elemOne F\<rparr> in (Inr p', p')))))
      else if length b = 1 + p521ElementLength \<and> b ! 0 = 0 then
        (Inl ''unimplemented'', p)
      else (Inl ''invalid P521 point encoding'', p))"

text \<open>
  A concrete field for the inputs below: integers modulo \<open>2\<^sup>5\<^sup>2\<^sup>1 - 1\<close>, decoded from 66
  big-endian bytes.
\<close>

definition p521Prime :: nat where
  "p521Prime = 2 ^ 521 - 1"

definition natOfBytes :: "8 word list \<Rightarrow> nat" where
  "natOfBytes bs = foldl (\<lambda>acc w. 256 * acc + unat w) 0 bs"

definition natField :: "nat fiatP521" where
  "natField = \<lparr>
     elemSetBytes = (\<lambda>bs. if length bs = 66 \<and> natOfBytes bs < p521Prime then Inr (natOfBytes bs)
                          else Inl ''invalid P521Element encoding''),
     elemZero = 0,
     elemOne = 1,
     elemAdd = (\<lambda>a b. (a + b) mod p521Prime),
     elemSub = (\<lambda>a b. (a + (p521Prime - b mod p521Prime)) mod p521Prime),
     elemMul = (\<lambda>a b. (a * b) mod p521Prime),
     elemEqual = (=),
     p521B = 7\<rparr>"

definition pointG :: "nat P521Point" where
  "pointG = \<lparr>px = 3, py = 5, pz = 1\<rparr>"

section \<open>Directory maintenance (map.go)\<close>

text \<open>
  The table store maps the address of a table to the table; address 0 is \<open>nil\<close>.
  Reading a field through a pointer that holds no table panics.
\<close>

type_synonym tables = "tabref \<Rightarrow> table option"

definition tableAt :: "tables \<Rightarrow> tabref \<Rightarrow> stop + table" where
  "tableAt tabs p =
     (case tabs p of
        None \<Rightarrow> Inl (Panic ''invalid memory address or nil pointer dereference'')
      | Some t \<Rightarrow> Inr t)"

text \<open>Sequencing of steps that may stop.\<close>

definition andThen :: "stop + 'a \<Rightarrow> ('a \<Rightarrow> stop + 'b) \<Rightarrow> stop + 'b" where
  "andThen r f = (case r of Inl e \<Rightarrow> Inl e | Inr a \<Rightarrow> f a)"

text \<open>
  \<open>1 << (m.globalDepth - t.localDepth)\<close>, the number of directory entries of a table:
  a Go \<open>int\<close> shifted by a \<open>uint8\<close> difference that wraps.
\<close>

definition entries :: "('k, 'v) Map \<Rightarrow> table \<Rightarrow> 64 word" where
  "entries m t = push_bit (unat (globalDepth m - localDepth t)) 1"

text \<open>
  \<open>replaceTable(nt)\<close>. \<open>for i := 0; i < entries; i++\<close> runs for
  \<open>i = 0, ..., entries - 1\<close> when \<open>entries\<close> is positive and not at all otherwise.
  \<open>replaceTable_loop\<close> is the loop over those \<open>i\<close>, with \<open>nt.index + i\<close> in
  64-bit arithmetic.
\<close>

fun replaceTable_loop ::
  "('k, 'v) Map \<Rightarrow> tabref \<Rightarrow> 64 word \<Rightarrow> nat list \<Rightarrow> stop + ('k, 'v) Map" where
  "replaceTable_loop m nt idx [] = Inr m"
| "replaceTable_loop m nt idx (i # rest) =
     andThen (directorySet m (idx + of_nat i) nt) (\<lambda>m'. replaceTable_loop m' nt idx rest)"

definition replaceTable :: "('k, 'v) Map \<Rightarrow> tables \<Rightarrow> tabref \<Rightarrow> stop + ('k, 'v) Map" where
  "replaceTable m tabs nt =
     andThen (tableAt tabs nt) (\<lambda>t.
       let n = (if 0 <s entries m t then unat (entries m t) else 0)
       in replaceTable_loop m nt (index t) [0..<n])"

text \<open>
  The block of \<open>installTableSplit\<close> that grows the directory. \<open>make\<close> panics on a
  negative length; the new slice starts all \<open>nil\<close>; \<open>newDir[2*i] = t\<close> is a
  bounds-checked slice store; \<open>for i := range m.dirLen\<close> runs for
  \<open>i = 0, ..., dirLen - 1\<close>.
\<close>

definition sliceSet :: "tabref list \<Rightarrow> 64 word \<Rightarrow> tabref \<Rightarrow> stop + tabref list" where
  "sliceSet xs i v =
     (if 0 \<le>s i \<and> nat (sint i) < length xs then Inr (xs[nat (sint i) := v])
      else Inl (Panic ''index out of range''))"

definition growStep ::
  "('k, 'v) Map \<Rightarrow> nat \<Rightarrow> tabref list \<times> tables \<Rightarrow> stop + tabref list \<times> tables" where
  "growStep m i st =
     (case st of (newDir, tabs) \<Rightarrow>
        andThen (directoryAt m (of_nat i)) (\<lambda>t.
        andThen (sliceSet newDir (2 * of_nat i) t) (\<lambda>newDir1.
        andThen (sliceSet newDir1 (2 * of_nat i + 1) t) (\<lambda>newDir2.
        andThen (tableAt tabs t) (\<lambda>tt.
          if index tt = of_nat i then Inr (newDir2, tabs(t \<mapsto> tt\<lparr>index := 2 * of_nat i\<rparr>))
          else Inr (newDir2, tabs))))))"

fun growLoop ::
  "('k, 'v) Map \<Rightarrow> nat list \<Rightarrow> tabref list \<times> tables \<Rightarrow> stop + tabref list \<times> tables" where
  "growLoop m [] st = Inr st"
| "growLoop m (i # rest) st = andThen (growStep m i st) (growLoop m rest)"

definition growDirectory :: "('k, 'v) Map \<Rightarrow> tables \<Rightarrow> stop + ('k, 'v) Map \<times> tables" where
  "growDirectory m tabs =
     (if sint (dirLen m * 2) < 0 then Inl (Panic ''makeslice: len out of range'')
      else
        (let newDir = replicate (nat (sint (dirLen m * 2))) 0;
             n = (if 0 <s dirLen m then unat (dirLen m) else 0)
         in andThen (growLoop m [0..<n] (newDir, tabs)) (\<lambda>(newDir', tabs').
              Inr (m\<lparr>globalDepth := globalDepth m + 1,
                     globalShift := globalShift m - 1,
                     directory := newDir',
                     dirLen := of_nat (length newDir')\<rparr>, tabs'))))"

text \<open>
  \<open>installTableSplit(old, left, right)\<close>: the map and the table store afterwards.
  \<open>installLeftRight\<close> is the second half of the function, from
  \<open>left.index = old.index\<close> on.
\<close>

definition installLeftRight ::
  "('k, 'v) Map \<Rightarrow> tables \<Rightarrow> tabref \<Rightarrow> tabref \<Rightarrow> tabref \<Rightarrow> stop + ('k, 'v) Map \<times> tables" where
  "installLeftRight m1 tabs1 old left right =
     andThen (tableAt tabs1 old) (\<lambda>ot1.
     andThen (tableAt tabs1 left) (\<lambda>lt.
       let tabs2 = tabs1(left \<mapsto> lt\<lparr>index := index ot1\<rparr>)
       in andThen (replaceTable m1 tabs2 left) (\<lambda>m2.
          andThen (tableAt tabs2 left) (\<lambda>lt2.
          andThen (tableAt tabs2 right) (\<lambda>rt.
            let tabs3 = tabs2(right \<mapsto> rt\<lparr>index := index lt2 + entries m2 lt2\<rparr>)
            in andThen (replaceTable m2 tabs3 right) (\<lambda>m3. Inr (m3, tabs3)))))))"

definition installTableSplit ::
  "('k, 'v) Map \<Rightarrow> tables \<Rightarrow> tabref \<Rightarrow> tabref \<Rightarrow> tabref \<Rightarrow> stop + ('k, 'v) Map \<times> tables" where
  "installTableSplit m tabs old left right =
     andThen (tableAt tabs old) (\<lambda>ot.
     andThen (if localDepth ot = globalDepth m then growDirectory m tabs else Inr (m, tabs))
       (\<lambda>(m1, tabs1). installLeftRight m1 tabs1 old left right))"

text \<open>
  The table store after the growth loop has passed the first \<open>k\<close> directory entries:
  the tables of the directory whose index is below \<open>k\<close> have it doubled.
\<close>

definition doubleIndices :: "tabref list \<Rightarrow> nat \<Rightarrow> tables \<Rightarrow> tables" where
  "doubleIndices dir k tabs =
     (\<lambda>t. case tabs t of
            None \<Rightarrow> None
          | Some tt \<Rightarrow>
              if t \<in> set dir \<and> unat (index tt) < k then Some (tt\<lparr>index := 2 * index tt\<rparr>)
              else Some tt)"

text \<open>
  The directory invariants: the directory has \<open>1 << globalDepth\<close> entries and fits
  the address space (its entries are 8-byte pointers, so there are fewer than
  \<open>2\<^sup>6\<^sup>1\<close> of them); \<open>globalShift = 64 - globalDepth\<close>; every entry points to a
  table whose \<open>localDepth\<close> is at most \<open>globalDepth\<close> and which occupies exactly the
  aligned span of \<open>1 << (globalDepth - localDepth)\<close> slots starting at its \<open>index\<close>.
\<close>

definition dir_inv :: "('k, 'v) Map \<Rightarrow> tables \<Rightarrow> bool" where
  "dir_inv m tabs \<longleftrightarrow>
     dirLen m = of_nat (length (directory m)) \<and>
     length (directory m) = 2 ^ unat (globalDepth m) \<and>
     unat (globalDepth m) \<le> 60 \<and>
     globalShift m = 64 - globalDepth m \<and>
     (\<forall>i < length (directory m).
        \<exists>t. tabs (directory m ! i) = Some t \<and>
            unat (localDepth t) \<le> unat (globalDepth m) \<and>
            2 ^ (unat (globalDepth m) - unat (localDepth t)) dvd unat (index t) \<and>
            unat (index t) \<le> i \<and>
            i < unat (index t) + 2 ^ (unat (globalDepth m) - unat (localDepth t)) \<and>
            (\<forall>j. unat (index t) \<le> j \<and>
                 j < unat (index t) + 2 ^ (unat (globalDepth m) - unat (localDepth t))
                 \<longrightarrow> j < length (directory m) \<and> directory m ! j = directory m ! i))"

text \<open>
  Concrete inputs: the table store of \<open>dirMap\<close> (table 1 at depth 1 over slots 0 and 1,
  tables 2 and 3 at depth 2), with two fresh tables 4 and 5 at depth 3 to split
  table 3 (which needs the directory to grow) and two fresh tables 6 and 7 at depth 2
  to split table 1 (which does not).
\<close>

definition dirTables :: tables where
  "dirTables = [1 \<mapsto> \<lparr>index = 0, localDepth = 1\<rparr>, 2 \<mapsto> \<lparr>index = 2, localDepth = 2\<rparr>,
     3 \<mapsto> \<lparr>index = 3, localDepth = 2\<rparr>, 4 \<mapsto> \<lparr>index = 0, localDepth = 3\<rparr>,
     5 \<mapsto> \<lparr>index = 0, localDepth = 3\<rparr>, 6 \<mapsto> \<lparr>index = 0, localDepth = 2\<rparr>,
     7 \<mapsto> \<lparr>index = 0, localDepth = 2\<rparr>]"

section \<open>Properties of the limiter\<close>

subsection \<open>Word arithmetic used by the bucket\<close>

lemma sless_cases: "(c::64 word) = 0 \<or> 0 <s c \<or> c <s 0"
proof -
  have "(sint c :: int) = 0 \<Longrightarrow> c = 0"
    using signed_eq_0_iff [where ?'a = int and w = c] by simp
  then show ?thesis
    unfolding word_sless_alt by (cases "(sint c :: int) = 0") auto
qed

lemma neg_nonzero: "(c::64 word) <s 0 \<Longrightarrow> - c \<noteq> 0"
  by (auto simp: word_sless_alt)

lemma add_lt_cap:
  fixes f c cap :: "64 word"
  assumes "f \<le> cap" and "c < cap - f"
  shows "f + c < cap"
proof -
  have a: "unat (cap - f) = unat cap - unat f"
    using assms(1) by (simp add: unat_sub)
  have "unat c < unat cap - unat f"
    using assms(2) a by (simp add: word_less_nat_alt)
  then have b: "unat f + unat c < unat cap" by simp
  have "unat cap < 2 ^ 64"
    using unsigned_less [of cap] by simp
  then have "unat (f + c) = unat f + unat c"
    using b by (simp add: unat_add_lem [THEN iffD1])
  then show ?thesis
    using b by (simp add: word_less_nat_alt)
qed

lemma sub_lt:
  fixes f d :: "64 word"
  assumes "d < f" and "d \<noteq> 0"
  shows "f - d < f"
proof -
  have "0 < unat d"
    using assms(2) by (simp add: unat_gt_0)
  moreover have "unat d < unat f"
    using assms(1) by (simp add: word_less_nat_alt)
  moreover have "unat (f - d) = unat f - unat d"
    using assms(1) by (simp add: unat_sub)
  ultimately show ?thesis
    by (simp add: word_less_nat_alt)
qed

subsection \<open>One call of accumulate\<close>

lemma accumulate_capacity: "capacity (accumulate m g l) = capacity l"
  by (simp add: accumulate_def Let_def)

lemma fill_accumulate:
  "fill (accumulate m g l) =
    (if 0 <s g - m \<and> capacity l - fill l \<le> g - m then capacity l
     else if g - m <s 0 \<and> fill l \<le> - (g - m) then 0
     else fill l - (- (g - m)))"
  by (simp add: accumulate_def Let_def)

lemma enabled_accumulate:
  "enabled (accumulate m g l) =
    (if 0 <s g - m \<and> capacity l - fill l \<le> g - m
     then (if capacity l - fill l \<noteq> 0 then True else enabled l)
     else if g - m \<noteq> 0 \<and> capacity l - fill l = 0 then False else enabled l)"
  by (simp add: accumulate_def Let_def)

lemma accumulate_fill:
  assumes "fill l \<le> capacity l"
  shows "fill (accumulate m g l) \<le> capacity l"
proof -
  define c where "c = g - m"
  have "c <s 0 \<Longrightarrow> \<not> fill l \<le> - c \<Longrightarrow> fill l - (- c) \<le> capacity l"
  proof -
    assume n: "c <s 0" and "\<not> fill l \<le> - c"
    then have "fill l - (- c) < fill l"
      using sub_lt [of "- c" "fill l"] neg_nonzero [OF n] by simp
    then show ?thesis using assms by simp
  qed
  moreover have "0 <s c \<Longrightarrow> \<not> capacity l - fill l \<le> c \<Longrightarrow> fill l - (- c) \<le> capacity l"
  proof -
    assume "0 <s c" and "\<not> capacity l - fill l \<le> c"
    then have "c < capacity l - fill l" by simp
    then show ?thesis
      using add_lt_cap [OF assms] by (simp add: less_imp_le)
  qed
  moreover have "c = 0 \<Longrightarrow> fill l - (- c) \<le> capacity l"
    using assms by simp
  ultimately show ?thesis
    unfolding fill_accumulate c_def [symmetric] using sless_cases [of c] by auto
qed

lemma accumulate_enabled:
  assumes "fill l \<le> capacity l" and "enabled l \<longleftrightarrow> fill l = capacity l"
    and "capacity l \<noteq> 0"
  shows "enabled (accumulate m g l) \<longleftrightarrow> fill (accumulate m g l) = capacity l"
proof -
  define c where "c = g - m"
  have hz: "capacity l - fill l = 0 \<longleftrightarrow> fill l = capacity l" by auto
  have a: "c <s 0 \<Longrightarrow> \<not> fill l \<le> - c \<Longrightarrow> fill l - (- c) \<noteq> capacity l"
  proof -
    assume n: "c <s 0" and "\<not> fill l \<le> - c"
    then have "fill l - (- c) < fill l"
      using sub_lt [of "- c" "fill l"] neg_nonzero [OF n] by simp
    then have "fill l - (- c) < capacity l"
      using assms(1) by simp
    then show ?thesis by simp
  qed
  have b: "0 <s c \<Longrightarrow> \<not> capacity l - fill l \<le> c
      \<Longrightarrow> fill l - (- c) \<noteq> capacity l \<and> fill l \<noteq> capacity l"
  proof -
    assume "0 <s c" and f: "\<not> capacity l - fill l \<le> c"
    then have "c < capacity l - fill l" by simp
    then have "fill l + c < capacity l"
      using add_lt_cap [OF assms(1)] by simp
    moreover have "fill l \<noteq> capacity l"
      using f by auto
    ultimately show ?thesis by simp
  qed
  have n0: "c <s 0 \<Longrightarrow> c \<noteq> 0 \<and> \<not> 0 <s c"
    by (auto simp: word_sless_alt)
  have p0: "0 <s c \<Longrightarrow> c \<noteq> 0 \<and> \<not> c <s 0"
    by (auto simp: word_sless_alt)
  consider (z) "c = 0" | (p) "0 <s c" | (n) "c <s 0"
    using sless_cases by blast
  then show ?thesis
  proof cases
    case z
    then show ?thesis
      unfolding fill_accumulate enabled_accumulate c_def [symmetric]
      using assms(2) by simp
  next
    case p
    then show ?thesis
      unfolding fill_accumulate enabled_accumulate c_def [symmetric] hz
      using assms(2) b p0 by (cases "capacity l - fill l \<le> c") auto
  next
    case n
    then show ?thesis
      unfolding fill_accumulate enabled_accumulate c_def [symmetric] hz
      using assms(2,3) a n0 by (cases "fill l \<le> - c") auto
  qed
qed

lemma accumulate_inv:
  assumes "fill l \<le> capacity l"
    and "capacity l \<noteq> 0 \<longrightarrow> (enabled l \<longleftrightarrow> fill l = capacity l)"
  shows "fill (accumulate m g l) \<le> capacity (accumulate m g l) \<and>
         (capacity (accumulate m g l) \<noteq> 0 \<longrightarrow>
           (enabled (accumulate m g l)
             \<longleftrightarrow> fill (accumulate m g l) = capacity (accumulate m g l)))"
  using accumulate_fill [OF assms(1)] accumulate_enabled [OF assms(1)] assms(2)
  by (simp add: accumulate_capacity)

lemma accumulate_trace_inv:
  assumes "fill l \<le> capacity l"
    and "capacity l \<noteq> 0 \<longrightarrow> (enabled l \<longleftrightarrow> fill l = capacity l)"
  shows "\<forall>s \<in> set (accumulate_trace l cs).
           fill s \<le> capacity s \<and> (capacity s \<noteq> 0 \<longrightarrow> (enabled s \<longleftrightarrow> fill s = capacity s))"
  using assms
proof (induction cs arbitrary: l)
  case Nil
  then show ?case by simp
next
  case (Cons c cs)
  obtain m g where c: "c = (m, g)" by (cases c)
  have "fill (accumulate m g l) \<le> capacity (accumulate m g l) \<and>
         (capacity (accumulate m g l) \<noteq> 0 \<longrightarrow>
           (enabled (accumulate m g l)
             \<longleftrightarrow> fill (accumulate m g l) = capacity (accumulate m g l)))"
    using accumulate_inv [OF Cons.prems] .
  then show ?case
    using Cons.IH [of "accumulate m g l"] c by simp
qed

subsection \<open>Properties of the limiter\<close>

text \<open>
  C2 (as amended). For every sequence of \<open>accumulate\<close> calls on a limiter whose bucket
  starts with \<open>0 \<le> fill \<le> capacity\<close> and \<open>enabled = (fill = capacity)\<close>: after every
  call \<open>0 \<le> fill \<le> capacity\<close>, and, when the capacity is not zero, \<open>enabled\<close> is true
  if and only if \<open>fill = capacity\<close>.
\<close>

theorem accumulate_bucket_bound:
  assumes "0 \<le> fill l \<and> fill l \<le> capacity l" and "enabled l \<longleftrightarrow> fill l = capacity l"
  shows "\<forall>s \<in> set (accumulate_trace l cs).
           0 \<le> fill s \<and> fill s \<le> capacity s \<and>
           (capacity s \<noteq> 0 \<longrightarrow> (enabled s \<longleftrightarrow> fill s = capacity s))"
  using accumulate_trace_inv [of l cs] assms by simp

theorem accumulate_bucket_bound_witness:
  "(0 \<le> fill ex_l0 \<and> fill ex_l0 \<le> capacity ex_l0) \<and>
   (enabled ex_l0 \<longleftrightarrow> fill ex_l0 = capacity ex_l0) \<and>
   accumulate 3 0 (accumulate 0 7 ex_l0) \<in> set (accumulate_trace ex_l0 [(0, 7), (3, 0)]) \<and>
   fill (accumulate 3 0 (accumulate 0 7 ex_l0)) \<le> capacity (accumulate 3 0 (accumulate 0 7 ex_l0)) \<and>
   capacity (accumulate 3 0 (accumulate 0 7 ex_l0)) \<noteq> 0 \<and>
   enabled (accumulate 3 0 (accumulate 0 7 ex_l0))
     = (fill (accumulate 3 0 (accumulate 0 7 ex_l0)) = capacity (accumulate 3 0 (accumulate 0 7 ex_l0)))"
  using accumulate_bucket_bound [of ex_l0 "[(0, 7), (3, 0)]"]
  by (simp add: ex_l0_def accumulate_def Let_def word_sless_alt)

text \<open>
  C2 as stated fails on a bucket of capacity 0: \<open>fill = capacity = 0\<close> with \<open>enabled\<close>
  set meets the precondition, and \<open>accumulate(1, 0)\<close> empties the bucket and clears
  \<open>enabled\<close> although \<open>fill = capacity\<close> still holds.
\<close>

theorem accumulate_enabled_counterexample:
  "0 \<le> fill ex_zero_cap \<and> fill ex_zero_cap \<le> capacity ex_zero_cap \<and>
   (enabled ex_zero_cap \<longleftrightarrow> fill ex_zero_cap = capacity ex_zero_cap) \<and>
   fill (accumulate 1 0 ex_zero_cap) = capacity (accumulate 1 0 ex_zero_cap) \<and>
   \<not> enabled (accumulate 1 0 ex_zero_cap)"
  by (simp add: ex_zero_cap_def accumulate_def Let_def word_sless_alt)

lemma updateLocked_stale:
  "now <s lastUpdate l \<or> totalAssistTime <s lastTotalAssistTime l
    \<Longrightarrow> updateLocked bg totalAssistTime now l = l"
  by (simp add: updateLocked_def)

text \<open>
  C6. A call \<open>update(totalAssistTime, now)\<close> that takes the lock (the lock word is 0)
  while no transition is in progress, and whose \<open>now\<close> is before \<open>lastUpdate\<close> or whose
  \<open>totalAssistTime\<close> is below \<open>lastTotalAssistTime\<close>, returns normally and leaves the
  whole limiter state as it was: fill, capacity, overflow, enabled, lastUpdate and
  lastTotalAssistTime keep their values, and the lock is released again.
\<close>

theorem update_stale_discarded:
  assumes "lock l = 0" and "\<not> transitioning l"
    and "now <s lastUpdate l \<or> totalAssistTime <s lastTotalAssistTime l"
  shows "update bg totalAssistTime now l = Inr l"
proof -
  have "updateLocked bg totalAssistTime now (l\<lparr>lock := 1\<rparr>) = l\<lparr>lock := 1\<rparr>"
    using assms(3) by (simp add: updateLocked_stale)
  then show ?thesis
    using assms(1,2) by (simp add: update_def tryLock_def unlock_def)
qed

theorem update_stale_discarded_witness:
  "lock ex_stale = 0 \<and> \<not> transitioning ex_stale \<and> (5 <s lastUpdate ex_stale) \<and>
   update quarterShare 9 5 ex_stale = Inr ex_stale"
  using update_stale_discarded [of ex_stale 5 9 quarterShare]
  by (simp add: ex_stale_def word_sless_alt)

text \<open>
  C7 (as amended). For every call \<open>finishGCTransition(now)\<close> made while \<open>transitioning\<close>
  is set and the lock is held (as \<open>startGCTransition\<close> leaves it): the call returns
  normally with \<open>lastUpdate = now\<close>, \<open>lastTotalAssistTime = 0\<close>, \<open>transitioning\<close>
  cleared and the lock released. If \<open>now \<ge> lastUpdate\<close> the bucket is the one
  \<open>accumulate\<close> gives for zero mutator time and \<open>gcTime = (now - lastUpdate) * nprocs\<close>;
  if \<open>now < lastUpdate\<close> nothing is accumulated and the bucket is unchanged.
\<close>

theorem finishGCTransition_accounts:
  assumes "transitioning l" and "lock l = 1"
  shows "\<exists>l'. finishGCTransition now l = Inr l' \<and>
           lastUpdate l' = now \<and> lastTotalAssistTime l' = 0 \<and> \<not> transitioning l' \<and>
           lock l' = 0 \<and> gcEnabled l' = gcEnabled l \<and> nprocs l' = nprocs l \<and>
           (lastUpdate l \<le>s now \<longrightarrow>
              l' = (accumulate 0 ((now - lastUpdate l) * scast (nprocs l)) l)
                     \<lparr>lock := 0, transitioning := False, lastTotalAssistTime := 0,
                      lastUpdate := now\<rparr>) \<and>
           (now <s lastUpdate l \<longrightarrow>
              l' = l\<lparr>lock := 0, transitioning := False, lastTotalAssistTime := 0,
                     lastUpdate := now\<rparr>)"
  using assms
  by (auto simp add: finishGCTransition_def unlock_def Let_def accumulate_def
      word_sless_alt word_sle_eq)

theorem finishGCTransition_accounts_witness:
  "transitioning ex_stw \<and> lock ex_stw = 1 \<and> lastUpdate ex_stw \<le>s 12 \<and> 5 <s lastUpdate ex_stw \<and>
   finishGCTransition 12 ex_stw
     = Inr (ex_stw\<lparr>lock := 0, enabled := True, fill := 10, overflow := 1,
         transitioning := False, lastTotalAssistTime := 0, lastUpdate := 12\<rparr>) \<and>
   finishGCTransition 5 ex_stw
     = Inr (ex_stw\<lparr>lock := 0, transitioning := False, lastTotalAssistTime := 0, lastUpdate := 5\<rparr>)"
  using finishGCTransition_accounts [of ex_stw 12] finishGCTransition_accounts [of ex_stw 5]
  by (simp add: ex_stw_def accumulate_def Let_def word_sless_alt word_sle_eq)

text \<open>
  C7 as stated fails when \<open>now\<close> is before \<open>lastUpdate\<close>: with \<open>lastUpdate = 10\<close>,
  \<open>nprocs = 2\<close> and \<open>fill = 7\<close>, \<open>finishGCTransition(5)\<close> leaves \<open>fill = 7\<close>, while
  \<open>accumulate(0, (5 - 10) * 2)\<close> would have emptied the bucket.
\<close>

theorem finishGCTransition_counterexample:
  "transitioning ex_stw \<and> lock ex_stw = 1 \<and>
   finishGCTransition 5 ex_stw
     = Inr (ex_stw\<lparr>lock := 0, transitioning := False, lastTotalAssistTime := 0, lastUpdate := 5\<rparr>) \<and>
   fill (ex_stw\<lparr>lock := 0, transitioning := False, lastTotalAssistTime := 0, lastUpdate := 5\<rparr>) = 7 \<and>
   fill (accumulate 0 ((5 - lastUpdate ex_stw) * scast (nprocs ex_stw)) ex_stw) = 0"
  by (simp add: ex_stw_def finishGCTransition_def unlock_def accumulate_def Let_def
      word_sless_alt word_sle_eq)

text \<open>
  C8. \<open>resetCapacity(0, 1)\<close> on a limiter with \<open>fill = 1e9\<close>, \<open>capacity = 2e9\<close>,
  \<open>enabled\<close> clear and the collector off: the new capacity is \<open>1 * capacityPerProc = 1e9\<close>,
  so \<open>fill = capacity\<close> afterwards, but neither branch of the clamp stores to
  \<open>enabled\<close> and it stays false.
\<close>

theorem resetCapacity_equal_fill_keeps_enabled:
  "fill ex_reset \<le> capacity ex_reset \<and>
   (enabled ex_reset \<longleftrightarrow> fill ex_reset = capacity ex_reset) \<and>
   resetCapacity quarterShare 0 1 ex_reset
     = Inr (ex_reset\<lparr>capacity := 1000000000, nprocs := 1\<rparr>) \<and>
   capacity (ex_reset\<lparr>capacity := 1000000000, nprocs := 1\<rparr>) = 1 * capacityPerProc \<and>
   fill (ex_reset\<lparr>capacity := 1000000000, nprocs := 1\<rparr>)
     = capacity (ex_reset\<lparr>capacity := 1000000000, nprocs := 1\<rparr>) \<and>
   \<not> enabled (ex_reset\<lparr>capacity := 1000000000, nprocs := 1\<rparr>)"
  by (simp add: ex_reset_def resetCapacity_def tryLock_def unlock_def updateLocked_def
      accumulate_def capacityPerProc_def Let_def word_sless_alt word_sle_eq)

section \<open>Properties of the small-map path\<close>

lemma bit_match_upto:
  "n \<le> 8 \<Longrightarrow> bit (match_upto P g n) i \<longleftrightarrow> i < n \<and> P (ctrlGroup_get g i)"
proof (induction n)
  case 0
  then show ?case by simp
next
  case (Suc n)
  then show ?case
    by (auto simp: bit_set_bit_iff less_Suc_eq)
qed

lemma bit_matchH2: "bit (matchH2 g h) i \<longleftrightarrow> i < 8 \<and> ctrlGroup_get g i = ucast h"
  by (simp add: matchH2_def bit_match_upto)

lemma bit_matchEmpty: "bit (matchEmpty g) i \<longleftrightarrow> i < 8 \<and> ctrlGroup_get g i = ctrlEmpty"
  by (simp add: matchEmpty_def bit_match_upto)

lemma bitset_nonzero: "(b :: bitset) \<noteq> 0 \<longleftrightarrow> (\<exists>i<8. bit b i)"
proof
  assume "b \<noteq> 0"
  then obtain n where n: "bit b n" by (auto simp: bit_eq_iff)
  then have "n < 8" using bit_imp_le_length [OF n] by simp
  then show "\<exists>i<8. bit b i" using n by blast
next
  assume "\<exists>i<8. bit b i"
  then show "b \<noteq> 0" by auto
qed

lemma first_least: "bit b j \<Longrightarrow> first b \<le> j"
proof -
  assume j: "bit b j"
  then have j8: "j < 8" using bit_imp_le_length [OF j] by simp
  then have "\<exists>x. x \<in> set [0..<8] \<and> bit b x" using j by auto
  then obtain i where fi: "find (bit b) [0..<8] = Some i"
    using find_None_iff [of "bit b" "[0..<8]"] by (cases "find (bit b) [0..<8]") auto
  then have "i < 8 \<and> (\<forall>k<i. \<not> bit b k)"
    unfolding find_Some_iff by auto
  then have "i \<le> j" using j by (meson not_le)
  then show ?thesis by (simp add: first_def fi)
qed

lemma bit_removeFirst: "bit (removeFirst b) j \<longleftrightarrow> bit b j \<and> j \<noteq> first b"
  by (auto simp: removeFirst_def bit_unset_bit_iff)

lemma bit_255: "bit (255 :: int) n \<longleftrightarrow> n < 8"
proof -
  have "(255 :: int) = mask 8" by (simp add: mask_eq_exp_minus_1)
  then show ?thesis by (simp only: bit_mask_iff) auto
qed

lemma ctrlGroup_get_set:
  assumes "i < 8" and "j < 8"
  shows "ctrlGroup_get (ctrlGroup_set g i c) j = (if i = j then c else ctrlGroup_get g j)"
proof (rule bit_word_eqI)
  fix n assume "n < LENGTH(8)"
  then have n: "n < 8" by simp
  show "bit (ctrlGroup_get (ctrlGroup_set g i c) j) n
      = bit (if i = j then c else ctrlGroup_get g j) n"
  proof (cases "i = j")
    case True
    then show ?thesis using n assms
      by (auto simp: ctrlGroup_get_def ctrlGroup_set_def bit_ucast_iff bit_drop_bit_eq
          bit_and_iff bit_or_iff bit_not_iff bit_push_bit_iff bit_255)
  next
    case False
    then have "8 * i + 8 \<le> 8 * j \<or> 8 * j + 8 \<le> 8 * i" by arith
    then show ?thesis using n assms False
      by (auto simp: ctrlGroup_get_def ctrlGroup_set_def bit_ucast_iff bit_drop_bit_eq
          bit_and_iff bit_or_iff bit_not_iff bit_push_bit_iff bit_255 dest: bit_imp_le_length)
  qed
qed

lemma ctrlGroup_get_bitsetEmpty: "i < 8 \<Longrightarrow> ctrlGroup_get bitsetEmpty i = ctrlEmpty"
proof -
  have "\<forall>j \<in> set [0..<8]. ctrlGroup_get bitsetEmpty j = ctrlEmpty"
    by code_simp
  then show "i < 8 \<Longrightarrow> ctrlGroup_get bitsetEmpty i = ctrlEmpty"
    by simp
qed

lemma bit_127: "bit (127 :: int) n \<longleftrightarrow> n < 7"
proof -
  have "(127 :: int) = mask 7" by (simp add: mask_eq_exp_minus_1)
  then show ?thesis by (simp only: bit_mask_iff) auto
qed

lemma bit_ctrlEmpty: "bit ctrlEmpty n \<longleftrightarrow> n = 7"
proof -
  have e: "ctrlEmpty = 2 ^ 7" by (simp add: ctrlEmpty_def)
  show ?thesis unfolding e bit_exp_iff by auto
qed

lemma h2_occupied: "(ucast (h2 h) :: ctrl) AND ctrlEmpty = 0"
  by (rule bit_word_eqI) (auto simp: h2_def bit_and_iff bit_ucast_iff bit_127 bit_ctrlEmpty)


lemma empty_not_occupied: "\<not> occupied cs i \<longleftrightarrow> ctrlGroup_get cs i AND ctrlEmpty = ctrlEmpty"
  by (simp add: occupied_def)

lemma ctrlEmpty_nonzero: "ctrlEmpty \<noteq> 0"
  by (simp add: ctrlEmpty_def)

lemma occupied_h2: "ctrlGroup_get cs i = ucast (h2 h) \<Longrightarrow> occupied cs i"
  using ctrlEmpty_nonzero by (simp add: occupied_def h2_occupied)

lemma occupied_not_empty: "occupied cs i \<Longrightarrow> ctrlGroup_get cs i \<noteq> ctrlEmpty"
  by (auto simp: occupied_def)

lemma find_upt8_Some:
  "find P [0..<8] = Some i \<longleftrightarrow> i < 8 \<and> P i \<and> (\<forall>j<i. \<not> P j)"
  unfolding find_Some_iff by auto

lemma find_upt8_None: "find P [0..<8] = None \<longleftrightarrow> (\<forall>j<8. \<not> P j)"
  unfolding find_None_iff by auto

lemma find_upt8_unique:
  assumes "\<And>a b. a < 8 \<Longrightarrow> b < 8 \<Longrightarrow> P a \<Longrightarrow> P b \<Longrightarrow> a = b"
  shows "find P [0..<8] = Some i \<longleftrightarrow> i < 8 \<and> P i"
proof -
  have "\<And>j. i < 8 \<Longrightarrow> P i \<Longrightarrow> j < i \<Longrightarrow> \<not> P j"
  proof
    fix j assume a: "i < 8" "P i" "j < i" "P j"
    then have "j < 8" by simp
    then have "j = i" using assms a by blast
    then show False using a by simp
  qed
  then show ?thesis unfolding find_upt8_Some by blast
qed

lemma matchLoop_find:
  "matchLoop typ g key b = find (\<lambda>j. bit b j \<and> KeyEqual typ key (keys g ! j)) [0..<8]"
proof (induction "typ" g key b rule: matchLoop.induct)
  case (1 ty g key match)
  show ?case
  proof (cases "match = 0")
    case True
    then have "find (\<lambda>j. bit match j \<and> KeyEqual ty key (keys g ! j)) [0..<8] = None"
      by (simp add: find_upt8_None)
    then show ?thesis using True by (subst matchLoop.simps) simp
  next
    case False
    note nz = this
    have fs: "bit match (first match)" "first match < 8"
      using first_set [OF nz] by simp_all
    show ?thesis
    proof (cases "KeyEqual ty key (keys g ! first match)")
      case True
      have "find (\<lambda>j. bit match j \<and> KeyEqual ty key (keys g ! j)) [0..<8] = Some (first match)"
        unfolding find_upt8_Some using fs True first_least [of match] by (auto simp: not_less [symmetric])
      then show ?thesis using nz True by (subst matchLoop.simps) simp
    next
      case False
      have "find (\<lambda>j. bit (removeFirst match) j \<and> KeyEqual ty key (keys g ! j)) [0..<8]
          = find (\<lambda>j. bit match j \<and> KeyEqual ty key (keys g ! j)) [0..<8]"
        by (rule find_cong) (use False in \<open>auto simp: bit_removeFirst\<close>)
      then show ?thesis
        using nz False "1.IH" [OF nz refl False] by (subst matchLoop.simps) simp
    qed
  qed
qed

lemma getWithKeySmall_loop_find:
  "i \<le> 8 \<Longrightarrow>
   getWithKeySmall_loop typ g h key (drop_bit (8 * i) cs0) i
     = map_option (\<lambda>j. (keys g ! j, elems g ! j))
         (find (\<lambda>j. ctrlGroup_get cs0 j = h \<and> KeyEqual typ key (keys g ! j)) [i..<8])"
proof (induction "8 - i" arbitrary: i)
  case 0
  then have "i = 8" by simp
  then show ?case by (subst getWithKeySmall_loop.simps) simp
next
  case (Suc n)
  then have i: "i < 8" by simp
  have IH: "getWithKeySmall_loop typ g h key (drop_bit (8 * Suc i) cs0) (Suc i)
     = map_option (\<lambda>j. (keys g ! j, elems g ! j))
         (find (\<lambda>j. ctrlGroup_get cs0 j = h \<and> KeyEqual typ key (keys g ! j)) [Suc i..<8])"
    using Suc.hyps(1) [of "Suc i"] Suc.hyps(2) i by simp
  have d: "drop_bit 8 (drop_bit (8 * i) cs0) = drop_bit (8 * Suc i) cs0"
    by (simp add: drop_bit_drop_bit add.commute)
  have u: "[i..<8] = i # [Suc i..<8]" using i by (simp add: upt_conv_Cons)
  show ?case
    apply (subst getWithKeySmall_loop.simps)
    using i IH
    apply (simp only: d u Let_def)
    apply (simp add: ctrlGroup_get_def)
    done
qed


lemma numOccupied_card: "numOccupied cs = card {i. i < 8 \<and> occupied cs i}"
proof -
  have "numOccupied cs = card ({i. occupied cs i} \<inter> set [0..<8])"
    unfolding numOccupied_def by (rule distinct_length_filter) simp
  moreover have "{i. occupied cs i} \<inter> set [0..<8] = {i. i < 8 \<and> occupied cs i}" by auto
  ultimately show ?thesis by simp
qed

lemma numOccupied_le: "numOccupied cs \<le> 8"
  unfolding numOccupied_def using length_filter_le [of "occupied cs" "[0..<8]"] by simp

lemma numOccupied_full:
  assumes "\<forall>i<8. occupied cs i"
  shows "numOccupied cs = 8"
proof -
  have "filter (occupied cs) [0..<8] = [0..<8]" using assms by (intro filter_True) simp
  then show ?thesis by (simp add: numOccupied_def)
qed

lemma occupied_set:
  assumes "i < 8" and "j < 8"
  shows "occupied (ctrlGroup_set cs i c) j
          \<longleftrightarrow> (if i = j then c AND ctrlEmpty \<noteq> ctrlEmpty else occupied cs j)"
  using assms by (simp add: occupied_def ctrlGroup_get_set)

lemma numOccupied_insert:
  assumes "i < 8" and "\<not> occupied cs i" and "c AND ctrlEmpty \<noteq> ctrlEmpty"
  shows "numOccupied (ctrlGroup_set cs i c) = Suc (numOccupied cs)"
proof -
  have "{j. j < 8 \<and> occupied (ctrlGroup_set cs i c) j} = insert i {j. j < 8 \<and> occupied cs j}"
    using assms by (auto simp: occupied_set)
  moreover have "i \<notin> {j. j < 8 \<and> occupied cs j}" using assms by simp
  moreover have "finite {j. j < 8 \<and> occupied cs j}" by simp
  ultimately show ?thesis by (simp add: numOccupied_card)
qed

lemma numOccupied_remove:
  assumes "i < 8" and "occupied cs i"
  shows "Suc (numOccupied (ctrlGroup_set cs i ctrlEmpty)) = numOccupied cs"
proof -
  have "{j. j < 8 \<and> occupied (ctrlGroup_set cs i ctrlEmpty) j} = {j. j < 8 \<and> occupied cs j} - {i}"
    using assms by (auto simp: occupied_set split: if_splits)
  moreover have "i \<in> {j. j < 8 \<and> occupied cs j}" using assms by simp
  moreover have "finite {j. j < 8 \<and> occupied cs j}" by simp
  ultimately show ?thesis
    by (simp add: numOccupied_card card.remove [symmetric] del: card_Diff_insert)
qed


lemma slotOf_None_iff:
  "slotOf g k = None \<longleftrightarrow> (\<forall>j<8. \<not> (occupied (ctrls g) j \<and> keys g ! j = k))"
  by (simp add: slotOf_def find_upt8_None)

lemma slotOf_Some_iff:
  assumes "small_inv ty m"
  shows "slotOf (group m) k = Some i
          \<longleftrightarrow> i < 8 \<and> occupied (ctrls (group m)) i \<and> keys (group m) ! i = k"
  unfolding slotOf_def
  by (rule find_upt8_unique) (use assms in \<open>auto simp: small_inv_def\<close>)

lemma small_inv_key_match:
  assumes "small_inv ty m" and "j < 8"
  shows "ctrlGroup_get (ctrls (group m)) j = ucast (h2 (Hasher ty k (seed m))) \<and> k = keys (group m) ! j
          \<longleftrightarrow> occupied (ctrls (group m)) j \<and> keys (group m) ! j = k"
  using assms occupied_h2 occupied_not_empty
  unfolding small_inv_def by metis

lemma matchLoop_slotOf:
  assumes "small_inv ty m" and "\<forall>a b. KeyEqual ty a b = (a = b)"
  shows "matchLoop ty (group m) k (matchH2 (ctrls (group m)) (h2 (Hasher ty k (seed m))))
          = slotOf (group m) k"
  unfolding matchLoop_find slotOf_def
  by (rule find_cong) (use assms small_inv_key_match [OF assms(1)] in \<open>auto simp: bit_matchH2\<close>)

lemma getWithKeySmall_slotOf:
  assumes "small_inv ty m" and "\<forall>a b. KeyEqual ty a b = (a = b)"
  shows "map_option snd (getWithKeySmall ty m (Hasher ty k (seed m)) k) = contents (group m) k"
proof -
  have "find (\<lambda>j. ctrlGroup_get (ctrls (group m)) j = ucast (h2 (Hasher ty k (seed m)))
                \<and> KeyEqual ty k (keys (group m) ! j)) [0..<8]
        = slotOf (group m) k"
    unfolding slotOf_def
    by (rule find_cong) (use assms small_inv_key_match [OF assms(1)] in auto)
  then show ?thesis
    using getWithKeySmall_loop_find [of 0 ty "group m" _ k "ctrls (group m)"]
    by (simp add: getWithKeySmall_def contents_def option.map_comp comp_def)
qed

lemma Get_small:
  assumes "small_inv ty m" and "\<forall>a b. KeyEqual ty a b = (a = b)"
  shows "Get ty m k = Inr (contents (group m) k)"
  using getWithKeySmall_slotOf [OF assms] assms(1)
  by (simp add: Get_def small_inv_def)


lemma exists_empty:
  assumes "numOccupied cs < 8"
    and "\<forall>i<8. ctrlGroup_get cs i = ctrlEmpty \<or> occupied cs i"
  shows "matchEmpty cs \<noteq> 0"
proof -
  have "\<not> (\<forall>i<8. occupied cs i)"
    using assms(1) numOccupied_full [of cs] by auto
  then obtain i where "i < 8" "\<not> occupied cs i" by blast
  then have "bit (matchEmpty cs) i"
    using assms(2) by (auto simp: bit_matchEmpty)
  then show ?thesis by auto
qed

lemma first_matchEmpty:
  assumes "matchEmpty cs \<noteq> 0"
  shows "first (matchEmpty cs) < 8 \<and> ctrlGroup_get cs (first (matchEmpty cs)) = ctrlEmpty"
  using first_set [OF assms] by (simp add: bit_matchEmpty)

lemma small_inv_bytes:
  assumes "small_inv ty m"
  shows "\<forall>i<8. ctrlGroup_get (ctrls (group m)) i = ctrlEmpty \<or> occupied (ctrls (group m)) i"
  using assms occupied_h2 unfolding small_inv_def by metis

lemma putSlotSmall_hit:
  assumes "small_inv ty m" and "\<forall>a b. KeyEqual ty a b = (a = b)"
    and "slotOf (group m) k = Some i"
  shows "putSlotSmall ty m (Hasher ty k (seed m)) k = Inr (m, i)"
proof -
  have "keys (group m) ! i = k"
    using assms(3) slotOf_Some_iff [OF assms(1)] by simp
  then have "(keys (group m))[i := k] = keys (group m)"
    by (metis list_update_id)
  then show ?thesis
    using matchLoop_slotOf [OF assms(1,2), of k] assms(3)
    by (simp add: putSlotSmall_def Let_def)
qed

lemma putSlotSmall_miss:
  assumes "small_inv ty m" and "\<forall>a b. KeyEqual ty a b = (a = b)"
    and "slotOf (group m) k = None" and "used m < 8"
  shows "matchEmpty (ctrls (group m)) \<noteq> 0 \<and>
         putSlotSmall ty m (Hasher ty k (seed m)) k
           = Inr (m\<lparr>group := (group m)
                     \<lparr>keys := (keys (group m))[first (matchEmpty (ctrls (group m))) := k],
                      ctrls := ctrlGroup_set (ctrls (group m)) (first (matchEmpty (ctrls (group m))))
                                 (ucast (h2 (Hasher ty k (seed m))))\<rparr>,
                   used := used m + 1\<rparr>,
                  first (matchEmpty (ctrls (group m))))"
proof -
  have "unat (used m) < 8"
    using assms(4) by (simp add: word_less_nat_alt)
  then have "numOccupied (ctrls (group m)) < 8"
    using assms(1) by (simp add: small_inv_def)
  then have ne: "matchEmpty (ctrls (group m)) \<noteq> 0"
    using exists_empty small_inv_bytes [OF assms(1)] by blast
  then show ?thesis
    using matchLoop_slotOf [OF assms(1,2), of k] assms(3)
    by (simp add: putSlotSmall_def Let_def)
qed

lemma used_succ:
  fixes u :: "64 word"
  assumes "u < 8"
  shows "unat (u + 1) = Suc (unat u)"
proof -
  have "unat u < 8" using assms by (simp add: word_less_nat_alt)
  then have "unat u + unat (1 :: 64 word) < 2 ^ 64" by simp
  then have "unat (u + 1) = unat u + unat (1 :: 64 word)"
    by (simp only: unat_add_lem [THEN iffD1] len_bit0 len_num1 mult_2 one_add_one numeral_Bit0 [symmetric]) 
  then show ?thesis by simp
qed

lemma used_pred:
  fixes u :: "64 word"
  assumes "0 < unat u"
  shows "Suc (unat (u - 1)) = unat u"
proof -
  have "1 \<le> u" using assms by (simp add: word_le_nat_alt)
  then have "unat (u - 1) = unat u - unat (1 :: 64 word)" by (rule unat_sub)
  then show ?thesis using assms by simp
qed


lemma contents_Some_iff:
  assumes "small_inv ty m"
  shows "contents (group m) k = Some v
          \<longleftrightarrow> (\<exists>i<8. occupied (ctrls (group m)) i \<and> keys (group m) ! i = k \<and> elems (group m) ! i = v)"
proof (cases "slotOf (group m) k")
  case None
  then have "\<forall>j<8. \<not> (occupied (ctrls (group m)) j \<and> keys (group m) ! j = k)"
    by (simp add: slotOf_None_iff)
  then show ?thesis using None by (auto simp: contents_def)
next
  case (Some j)
  then have j: "j < 8" "occupied (ctrls (group m)) j" "keys (group m) ! j = k"
    using slotOf_Some_iff [OF assms] by simp_all
  have "\<And>i. i < 8 \<Longrightarrow> occupied (ctrls (group m)) i \<Longrightarrow> keys (group m) ! i = k \<Longrightarrow> i = j"
  proof -
    fix i assume "i < 8" "occupied (ctrls (group m)) i" "keys (group m) ! i = k"
    then have "slotOf (group m) k = Some i" using slotOf_Some_iff [OF assms] by simp
    then show "i = j" using Some by simp
  qed
  then have "(\<exists>i<8. occupied (ctrls (group m)) i \<and> keys (group m) ! i = k \<and> elems (group m) ! i = v)
      \<longleftrightarrow> elems (group m) ! j = v"
    using j by blast
  then show ?thesis using Some by (simp add: contents_def)
qed

lemma contents_None_iff:
  "contents g k = None \<longleftrightarrow> (\<forall>j<8. \<not> (occupied (ctrls g) j \<and> keys g ! j = k))"
  by (simp add: contents_def slotOf_None_iff)

lemma contents_eqI:
  assumes "small_inv ty m'"
    and "\<And>k v. (\<exists>i<8. occupied (ctrls (group m')) i \<and> keys (group m') ! i = k \<and> elems (group m') ! i = v)
              \<longleftrightarrow> f k = Some v"
  shows "contents (group m') = f"
proof
  fix k
  show "contents (group m') k = f k"
  proof (cases "f k")
    case None
    have "\<forall>j<8. \<not> (occupied (ctrls (group m')) j \<and> keys (group m') ! j = k)"
    proof (intro allI impI notI)
      fix j assume "j < 8" "occupied (ctrls (group m')) j \<and> keys (group m') ! j = k"
      then have "f k = Some (elems (group m') ! j)" using assms(2) [of k "elems (group m') ! j"] by blast
      then show False using None by simp
    qed
    then show ?thesis using None by (simp add: contents_None_iff)
  next
    case (Some v)
    then have "contents (group m') k = Some v"
      using assms(2) [of k v] contents_Some_iff [OF assms(1), of k v] by simp
    then show ?thesis using Some by simp
  qed
qed

lemma Put_small_hit:
  assumes inv: "small_inv ty m" and eq: "\<forall>a b. KeyEqual ty a b = (a = b)"
    and hit: "slotOf (group m) k = Some i" and lt: "used m < 8"
  shows "\<exists>m'. Put ty m k v = Inr m' \<and> small_inv ty m' \<and> seed m' = seed m \<and>
           contents (group m') = (contents (group m))(k \<mapsto> v) \<and> used m' = used m"
proof -
  define m' where "m' = m\<lparr>group := (group m)\<lparr>elems := (elems (group m))[i := v]\<rparr>\<rparr>"
  have i: "i < 8" "occupied (ctrls (group m)) i" "keys (group m) ! i = k"
    using hit slotOf_Some_iff [OF inv] by simp_all
  have put: "Put ty m k v = Inr m'"
    using putSlotSmall_hit [OF inv eq hit] inv lt
    by (simp add: Put_def PutSlot_def m'_def small_inv_def)
  have inv': "small_inv ty m'"
    using inv by (simp add: small_inv_def m'_def)
  have f: "ctrls (group m') = ctrls (group m)" "keys (group m') = keys (group m)"
    "elems (group m') = (elems (group m))[i := v]"
    by (simp_all add: m'_def)
  have c: "contents (group m') = (contents (group m))(k \<mapsto> v)"
  proof (rule contents_eqI [OF inv'])
    fix k' v'
    show "(\<exists>j<8. occupied (ctrls (group m')) j \<and> keys (group m') ! j = k' \<and> elems (group m') ! j = v')
            \<longleftrightarrow> ((contents (group m))(k \<mapsto> v)) k' = Some v'"
    proof (cases "k' = k")
      case True
      have len: "length (elems (group m)) = 8" using inv by (simp add: small_inv_def)
      have uniq: "\<And>j. j < 8 \<Longrightarrow> occupied (ctrls (group m)) j \<Longrightarrow> keys (group m) ! j = k \<Longrightarrow> j = i"
        using inv i unfolding small_inv_def by blast
      have a: "\<And>j. j < 8 \<Longrightarrow> occupied (ctrls (group m')) j \<and> keys (group m') ! j = k
            \<longleftrightarrow> j = i"
        unfolding f using uniq i by blast
      have b: "elems (group m') ! i = v" using i(1) len by (simp add: f)
      have "(\<exists>j<8. occupied (ctrls (group m')) j \<and> keys (group m') ! j = k \<and> elems (group m') ! j = v')
            \<longleftrightarrow> v = v'"
        using a b i(1) by metis
      then show ?thesis
        using True by auto
    next
      case False
      have "\<And>j. keys (group m) ! j = k' \<Longrightarrow> elems (group m') ! j = elems (group m) ! j"
      proof -
        fix j assume "keys (group m) ! j = k'"
        then have "j \<noteq> i" using i(3) False by auto
        then show "elems (group m') ! j = elems (group m) ! j" by (simp add: f)
      qed
      then have "(\<exists>j<8. occupied (ctrls (group m')) j \<and> keys (group m') ! j = k' \<and> elems (group m') ! j = v')
          \<longleftrightarrow> (\<exists>j<8. occupied (ctrls (group m)) j \<and> keys (group m) ! j = k' \<and> elems (group m) ! j = v')"
        unfolding f(1,2) by auto
      then show ?thesis
        using False contents_Some_iff [OF inv, of k' v'] by simp
    qed
  qed
  have s: "seed m' = seed m" "used m' = used m" by (simp_all add: m'_def)
  show ?thesis
    by (rule exI [of _ m']) (simp only: put inv' c s simp_thms)
qed



lemma Put_small_miss_fields:
  assumes inv: "small_inv ty m" and eq: "\<forall>a b. KeyEqual ty a b = (a = b)"
    and miss: "slotOf (group m) k = None" and lt: "used m < 8"
  shows "\<exists>m' i. Put ty m k v = Inr m' \<and> i < 8 \<and> ctrlGroup_get (ctrls (group m)) i = ctrlEmpty \<and>
           ctrls (group m') = ctrlGroup_set (ctrls (group m)) i (ucast (h2 (Hasher ty k (seed m)))) \<and>
           keys (group m') = (keys (group m))[i := k] \<and>
           elems (group m') = (elems (group m))[i := v] \<and>
           used m' = used m + 1 \<and> seed m' = seed m \<and> dirLen m' = dirLen m"
proof -
  define i where "i = first (matchEmpty (ctrls (group m)))"
  have ps: "matchEmpty (ctrls (group m)) \<noteq> 0"
    "putSlotSmall ty m (Hasher ty k (seed m)) k
           = Inr (m\<lparr>group := (group m)
                     \<lparr>keys := (keys (group m))[i := k],
                      ctrls := ctrlGroup_set (ctrls (group m)) i (ucast (h2 (Hasher ty k (seed m))))\<rparr>,
                   used := used m + 1\<rparr>, i)"
    using putSlotSmall_miss [OF inv eq miss lt] unfolding i_def by simp_all
  have i: "i < 8" "ctrlGroup_get (ctrls (group m)) i = ctrlEmpty"
    using first_matchEmpty [OF ps(1)] unfolding i_def by simp_all
  have d: "dirLen m = 0" using inv by (simp add: small_inv_def)
  show ?thesis
    apply (rule exI [of _ "m\<lparr>group := (group m)
                     \<lparr>keys := (keys (group m))[i := k],
                      ctrls := ctrlGroup_set (ctrls (group m)) i (ucast (h2 (Hasher ty k (seed m)))),
                      elems := (elems (group m))[i := v]\<rparr>,
                   used := used m + 1\<rparr>"])
    apply (rule exI [of _ i])
    using ps(2) i d lt
    apply (simp add: Put_def PutSlot_def)
    done
qed

lemma Put_small_miss:
  assumes inv: "small_inv ty m" and eq: "\<forall>a b. KeyEqual ty a b = (a = b)"
    and miss: "slotOf (group m) k = None" and lt: "used m < 8"
  shows "\<exists>m'. Put ty m k v = Inr m' \<and> small_inv ty m' \<and> seed m' = seed m \<and>
           contents (group m') = (contents (group m))(k \<mapsto> v) \<and> used m' = used m + 1"
proof -
  obtain m' i where put: "Put ty m k v = Inr m'"
    and i: "i < 8" "ctrlGroup_get (ctrls (group m)) i = ctrlEmpty"
    and f: "ctrls (group m') = ctrlGroup_set (ctrls (group m)) i (ucast (h2 (Hasher ty k (seed m))))"
      "keys (group m') = (keys (group m))[i := k]"
      "elems (group m') = (elems (group m))[i := v]"
      "used m' = used m + 1" "seed m' = seed m" "dirLen m' = dirLen m"
    using Put_small_miss_fields [OF assms] by blast
  have len: "length (keys (group m)) = 8" "length (elems (group m)) = 8"
    using inv by (simp_all add: small_inv_def)
  have noti: "\<not> occupied (ctrls (group m)) i"
    using i(2) by (simp add: occupied_def)
  have hocc: "(ucast (h2 (Hasher ty k (seed m))) :: ctrl) AND ctrlEmpty \<noteq> ctrlEmpty"
    using ctrlEmpty_nonzero by (simp add: h2_occupied)
  have occ: "\<And>j. j < 8 \<Longrightarrow> occupied (ctrls (group m')) j \<longleftrightarrow> j = i \<or> occupied (ctrls (group m)) j"
    using i(1) noti hocc by (auto simp: f(1) occupied_set)
  have key: "\<And>j. j < 8 \<Longrightarrow> keys (group m') ! j = (if j = i then k else keys (group m) ! j)"
    using len by (simp add: f(2) nth_list_update)
  have el: "\<And>j. j < 8 \<Longrightarrow> elems (group m') ! j = (if j = i then v else elems (group m) ! j)"
    using len by (simp add: f(3) nth_list_update)
  have byte: "\<And>j. j < 8 \<Longrightarrow> ctrlGroup_get (ctrls (group m')) j
       = (if j = i then ucast (h2 (Hasher ty k (seed m))) else ctrlGroup_get (ctrls (group m)) j)"
    using i(1) by (auto simp: f(1) ctrlGroup_get_set)
  have nok: "\<And>j. j < 8 \<Longrightarrow> occupied (ctrls (group m)) j \<Longrightarrow> keys (group m) ! j \<noteq> k"
    using miss by (auto simp: slotOf_None_iff)
  have inv1: "\<forall>j<8. ctrlGroup_get (ctrls (group m')) j = ctrlEmpty \<or>
            ctrlGroup_get (ctrls (group m')) j = ucast (h2 (Hasher ty (keys (group m') ! j) (seed m')))"
  proof (intro allI impI)
    fix j :: nat assume j: "j < 8"
    show "ctrlGroup_get (ctrls (group m')) j = ctrlEmpty \<or>
            ctrlGroup_get (ctrls (group m')) j = ucast (h2 (Hasher ty (keys (group m') ! j) (seed m')))"
    proof (cases "j = i")
      case True
      then show ?thesis using byte [OF j] key [OF j] f(5) by simp
    next
      case False
      then show ?thesis using byte [OF j] key [OF j] f(5) inv j by (simp add: small_inv_def)
    qed
  qed
  have inv2: "\<forall>a<8. \<forall>b<8. occupied (ctrls (group m')) a \<and> occupied (ctrls (group m')) b \<and>
            keys (group m') ! a = keys (group m') ! b \<longrightarrow> a = b"
  proof (intro allI impI)
    fix a b :: nat assume a: "a < 8" and b: "b < 8"
      and h: "occupied (ctrls (group m')) a \<and> occupied (ctrls (group m')) b \<and>
            keys (group m') ! a = keys (group m') ! b"
    have old: "a \<noteq> i \<Longrightarrow> b \<noteq> i \<Longrightarrow> a = b"
      using h a b occ [OF a] occ [OF b] key [OF a] key [OF b] inv unfolding small_inv_def by simp
    have "a = i \<Longrightarrow> b \<noteq> i \<Longrightarrow> False"
      using h b occ [OF b] key [OF a] key [OF b] nok [OF b] by simp
    moreover have "a \<noteq> i \<Longrightarrow> b = i \<Longrightarrow> False"
      using h a occ [OF a] key [OF a] key [OF b] nok [OF a] by simp
    ultimately show "a = b" using old by blast
  qed
  have "numOccupied (ctrls (group m')) = Suc (numOccupied (ctrls (group m)))"
    unfolding f(1) using i(1) noti hocc by (rule numOccupied_insert)
  then have inv3: "unat (used m') = numOccupied (ctrls (group m'))"
    using inv used_succ [OF lt] by (simp add: f(4) small_inv_def)
  have inv': "small_inv ty m'"
    unfolding small_inv_def using inv1 inv2 inv3 len inv by (simp add: f small_inv_def)
  have c: "contents (group m') = (contents (group m))(k \<mapsto> v)"
  proof (rule contents_eqI [OF inv'])
    fix k' v'
    show "(\<exists>j<8. occupied (ctrls (group m')) j \<and> keys (group m') ! j = k' \<and> elems (group m') ! j = v')
            \<longleftrightarrow> ((contents (group m))(k \<mapsto> v)) k' = Some v'"
    proof (cases "k' = k")
      case True
      have "\<And>j. j < 8 \<Longrightarrow> occupied (ctrls (group m')) j \<and> keys (group m') ! j = k \<longleftrightarrow> j = i"
        using occ key nok by auto
      then have "(\<exists>j<8. occupied (ctrls (group m')) j \<and> keys (group m') ! j = k \<and> elems (group m') ! j = v')
            \<longleftrightarrow> v = v'"
        using el [OF i(1)] i(1) by (metis (full_types))
      then show ?thesis using True by auto
    next
      case False
      have "\<And>j. j < 8 \<Longrightarrow>
          occupied (ctrls (group m')) j \<and> keys (group m') ! j = k' \<and> elems (group m') ! j = v'
          \<longleftrightarrow> occupied (ctrls (group m)) j \<and> keys (group m) ! j = k' \<and> elems (group m) ! j = v'"
        using occ key el noti False by auto
      then have "(\<exists>j<8. occupied (ctrls (group m')) j \<and> keys (group m') ! j = k' \<and> elems (group m') ! j = v')
          \<longleftrightarrow> (\<exists>j<8. occupied (ctrls (group m)) j \<and> keys (group m) ! j = k' \<and> elems (group m) ! j = v')"
        by blast
      then show ?thesis
        using False contents_Some_iff [OF inv, of k' v'] by simp
    qed
  qed
  show ?thesis
    by (rule exI [of _ m']) (simp only: put inv' c f simp_thms)
qed


lemma Put_small:
  assumes inv: "small_inv ty m" and eq: "\<forall>a b. KeyEqual ty a b = (a = b)" and lt: "used m < 8"
  shows "\<exists>m'. Put ty m k v = Inr m' \<and> small_inv ty m' \<and> seed m' = seed m \<and>
           contents (group m') = (contents (group m))(k \<mapsto> v) \<and>
           used m' = (if contents (group m) k = None then used m + 1 else used m)"
proof (cases "slotOf (group m) k")
  case None
  then have "contents (group m) k = None" by (simp add: contents_def)
  then show ?thesis using Put_small_miss [OF inv eq None lt, of v] by simp
next
  case (Some i)
  then have "contents (group m) k = Some (elems (group m) ! i)" by (simp add: contents_def)
  then show ?thesis using Put_small_hit [OF inv eq Some lt, of v] by simp
qed

lemma Delete_small_miss:
  assumes inv: "small_inv ty m" and eq: "\<forall>a b. KeyEqual ty a b = (a = b)"
    and miss: "slotOf (group m) k = None"
  shows "Delete ty m k = Inr m"
  using matchLoop_slotOf [OF inv eq, of k] miss inv
  by (simp add: Delete_def deleteSmall_def small_inv_def)

lemma Delete_small_hit_fields:
  assumes inv: "small_inv ty m" and eq: "\<forall>a b. KeyEqual ty a b = (a = b)"
    and hit: "slotOf (group m) k = Some i"
  shows "\<exists>m'. Delete ty m k = Inr m' \<and>
           ctrls (group m') = ctrlGroup_set (ctrls (group m)) i ctrlEmpty \<and>
           keys (group m') = (keys (group m))[i := zeroKey ty] \<and>
           elems (group m') = (elems (group m))[i := zeroElem ty] \<and>
           used m' = used m - 1 \<and> seed m' = seed m \<and> dirLen m' = dirLen m"
  using matchLoop_slotOf [OF inv eq, of k] hit inv
  by (simp add: Delete_def deleteSmall_def small_inv_def Let_def)

lemma Delete_small_hit:
  assumes inv: "small_inv ty m" and eq: "\<forall>a b. KeyEqual ty a b = (a = b)"
    and hit: "slotOf (group m) k = Some i"
  shows "\<exists>m'. Delete ty m k = Inr m' \<and> small_inv ty m' \<and> seed m' = seed m \<and>
           contents (group m') = (contents (group m))(k := None) \<and> used m' = used m - 1"
proof -
  obtain m' where del: "Delete ty m k = Inr m'"
    and f: "ctrls (group m') = ctrlGroup_set (ctrls (group m)) i ctrlEmpty"
      "keys (group m') = (keys (group m))[i := zeroKey ty]"
      "elems (group m') = (elems (group m))[i := zeroElem ty]"
      "used m' = used m - 1" "seed m' = seed m" "dirLen m' = dirLen m"
    using Delete_small_hit_fields [OF assms] by blast
  have i: "i < 8" "occupied (ctrls (group m)) i" "keys (group m) ! i = k"
    using hit slotOf_Some_iff [OF inv] by simp_all
  have len: "length (keys (group m)) = 8" "length (elems (group m)) = 8"
    using inv by (simp_all add: small_inv_def)
  have uniq: "\<And>j. j < 8 \<Longrightarrow> occupied (ctrls (group m)) j \<Longrightarrow> keys (group m) ! j = k \<Longrightarrow> j = i"
    using inv i unfolding small_inv_def by blast
  have occ: "\<And>j. j < 8 \<Longrightarrow> occupied (ctrls (group m')) j \<longleftrightarrow> j \<noteq> i \<and> occupied (ctrls (group m)) j"
    using i(1) by (auto simp: f(1) occupied_set)
  have key: "\<And>j. j < 8 \<Longrightarrow> j \<noteq> i \<Longrightarrow> keys (group m') ! j = keys (group m) ! j"
    by (simp add: f(2))
  have el: "\<And>j. j < 8 \<Longrightarrow> j \<noteq> i \<Longrightarrow> elems (group m') ! j = elems (group m) ! j"
    by (simp add: f(3))
  have byte: "\<And>j. j < 8 \<Longrightarrow> ctrlGroup_get (ctrls (group m')) j
       = (if j = i then ctrlEmpty else ctrlGroup_get (ctrls (group m)) j)"
    using i(1) by (auto simp: f(1) ctrlGroup_get_set)
  have inv1: "\<forall>j<8. ctrlGroup_get (ctrls (group m')) j = ctrlEmpty \<or>
            ctrlGroup_get (ctrls (group m')) j = ucast (h2 (Hasher ty (keys (group m') ! j) (seed m')))"
  proof (intro allI impI)
    fix j :: nat assume j: "j < 8"
    show "ctrlGroup_get (ctrls (group m')) j = ctrlEmpty \<or>
            ctrlGroup_get (ctrls (group m')) j = ucast (h2 (Hasher ty (keys (group m') ! j) (seed m')))"
    proof (cases "j = i")
      case True
      then show ?thesis using byte [OF j] by simp
    next
      case False
      then show ?thesis using byte [OF j] key [OF j False] f(5) inv j by (simp add: small_inv_def)
    qed
  qed
  have inv2: "\<forall>a<8. \<forall>b<8. occupied (ctrls (group m')) a \<and> occupied (ctrls (group m')) b \<and>
            keys (group m') ! a = keys (group m') ! b \<longrightarrow> a = b"
  proof (intro allI impI)
    fix a b :: nat assume a: "a < 8" and b: "b < 8"
      and h: "occupied (ctrls (group m')) a \<and> occupied (ctrls (group m')) b \<and>
            keys (group m') ! a = keys (group m') ! b"
    have ne: "a \<noteq> i" "b \<noteq> i" using h occ [OF a] occ [OF b] by simp_all
    show "a = b"
      using h a b occ [OF a] occ [OF b] key [OF a ne(1)] key [OF b ne(2)] inv
      unfolding small_inv_def by simp
  qed
  have cnt: "Suc (numOccupied (ctrls (group m'))) = numOccupied (ctrls (group m))"
    unfolding f(1) using i(1,2) by (rule numOccupied_remove)
  then have "0 < unat (used m)" using inv by (simp add: small_inv_def)
  then have inv3: "unat (used m') = numOccupied (ctrls (group m'))"
    using inv used_pred [of "used m"] cnt by (simp add: f(4) small_inv_def)
  have inv': "small_inv ty m'"
    unfolding small_inv_def using inv1 inv2 inv3 len inv by (simp add: f small_inv_def)
  have c: "contents (group m') = (contents (group m))(k := None)"
  proof (rule contents_eqI [OF inv'])
    fix k' v'
    show "(\<exists>j<8. occupied (ctrls (group m')) j \<and> keys (group m') ! j = k' \<and> elems (group m') ! j = v')
            \<longleftrightarrow> ((contents (group m))(k := None)) k' = Some v'"
    proof (cases "k' = k")
      case True
      have "\<And>j. j < 8 \<Longrightarrow> \<not> (occupied (ctrls (group m')) j \<and> keys (group m') ! j = k)"
        using occ key uniq by auto
      then show ?thesis using True by auto
    next
      case False
      have "\<And>j. j < 8 \<Longrightarrow>
          occupied (ctrls (group m')) j \<and> keys (group m') ! j = k' \<and> elems (group m') ! j = v'
          \<longleftrightarrow> occupied (ctrls (group m)) j \<and> keys (group m) ! j = k' \<and> elems (group m) ! j = v'"
        using occ key el i(3) False by auto
      then have "(\<exists>j<8. occupied (ctrls (group m')) j \<and> keys (group m') ! j = k' \<and> elems (group m') ! j = v')
          \<longleftrightarrow> (\<exists>j<8. occupied (ctrls (group m)) j \<and> keys (group m) ! j = k' \<and> elems (group m) ! j = v')"
        by blast
      then show ?thesis
        using False contents_Some_iff [OF inv, of k' v'] by simp
    qed
  qed
  show ?thesis
    by (rule exI [of _ m']) (simp only: del inv' c f simp_thms)
qed

lemma Delete_small:
  assumes inv: "small_inv ty m" and eq: "\<forall>a b. KeyEqual ty a b = (a = b)"
  shows "\<exists>m'. Delete ty m k = Inr m' \<and> small_inv ty m' \<and> seed m' = seed m \<and>
           contents (group m') = (contents (group m))(k := None) \<and>
           used m' = (if contents (group m) k = None then used m else used m - 1)"
proof (cases "slotOf (group m) k")
  case None
  then have n: "contents (group m) k = None" by (simp add: contents_def)
  then have "(contents (group m))(k := None) = contents (group m)" by (simp add: fun_upd_idem)
  then show ?thesis using Delete_small_miss [OF inv eq None] inv n by simp
next
  case (Some i)
  then have "contents (group m) k = Some (elems (group m) ! i)" by (simp add: contents_def)
  then show ?thesis using Delete_small_hit [OF inv eq Some] by simp
qed

lemma small_inv_empty:
  assumes "dirLen m = 0" and "used m = 0"
    and "\<forall>i<8. ctrlGroup_get (ctrls (group m)) i = ctrlEmpty"
    and "length (keys (group m)) = 8" and "length (elems (group m)) = 8"
  shows "small_inv ty m \<and> contents (group m) = Map.empty"
proof -
  have no: "\<forall>i<8. \<not> occupied (ctrls (group m)) i"
    using assms(3) by (simp add: occupied_def)
  then have "{i. i < 8 \<and> occupied (ctrls (group m)) i} = {}" by auto
  then have "numOccupied (ctrls (group m)) = 0" by (simp add: numOccupied_card)
  then have "small_inv ty m"
    using assms no by (simp add: small_inv_def)
  moreover have "contents (group m) = Map.empty"
    using no by (auto simp: contents_None_iff)
  ultimately show ?thesis by simp
qed

text \<open>
  C1. Starting from an empty small map (no directory, \<open>used = 0\<close>, all 8 control
  bytes empty), for any 5 distinct keys \<open>k1 .. k5\<close> with values \<open>v1 .. v5\<close>, any
  hash function and key equality being equality: the run \<open>Put(k1, v1)\<close>, ...,
  \<open>Put(k5, v5)\<close>, \<open>Delete(k3)\<close> completes on the small-map path, and afterwards
  \<open>Get(k3)\<close> reports absence, \<open>Get\<close> of \<open>k1\<close>, \<open>k2\<close>, \<open>k4\<close>, \<open>k5\<close>
  returns the value put for that key, and \<open>Used() = 4\<close>.
\<close>

theorem small_map_put5_delete:
  assumes eq: "\<forall>a b. KeyEqual ty a b = (a = b)"
    and empty: "dirLen m0 = 0" "used m0 = 0"
      "\<forall>i<8. ctrlGroup_get (ctrls (group m0)) i = ctrlEmpty"
      "length (keys (group m0)) = 8" "length (elems (group m0)) = 8"
    and dist: "distinct [k1, k2, k3, k4, k5]"
  shows "\<exists>m. applyOps ty m0
              [OpPut k1 v1, OpPut k2 v2, OpPut k3 v3, OpPut k4 v4, OpPut k5 v5, OpDelete k3] = Inr m \<and>
            Get ty m k3 = Inr None \<and>
            Get ty m k1 = Inr (Some v1) \<and> Get ty m k2 = Inr (Some v2) \<and>
            Get ty m k4 = Inr (Some v4) \<and> Get ty m k5 = Inr (Some v5) \<and>
            Used m = 4"
proof -
  have i0: "small_inv ty m0" and c0: "contents (group m0) = Map.empty"
    using small_inv_empty [OF empty] by simp_all
  obtain m1 where p1: "Put ty m0 k1 v1 = Inr m1" and i1: "small_inv ty m1"
    and c1: "contents (group m1) = [k1 \<mapsto> v1]" and u1: "used m1 = 1"
    using Put_small [OF i0 eq, of k1 v1] empty(2) c0 by auto
  obtain m2 where p2: "Put ty m1 k2 v2 = Inr m2" and i2: "small_inv ty m2"
    and c2: "contents (group m2) = [k1 \<mapsto> v1, k2 \<mapsto> v2]" and u2: "used m2 = 2"
    using Put_small [OF i1 eq, of k2 v2] u1 c1 dist by auto
  obtain m3 where p3: "Put ty m2 k3 v3 = Inr m3" and i3: "small_inv ty m3"
    and c3: "contents (group m3) = [k1 \<mapsto> v1, k2 \<mapsto> v2, k3 \<mapsto> v3]" and u3: "used m3 = 3"
    using Put_small [OF i2 eq, of k3 v3] u2 c2 dist by auto
  obtain m4 where p4: "Put ty m3 k4 v4 = Inr m4" and i4: "small_inv ty m4"
    and c4: "contents (group m4) = [k1 \<mapsto> v1, k2 \<mapsto> v2, k3 \<mapsto> v3, k4 \<mapsto> v4]" and u4: "used m4 = 4"
    using Put_small [OF i3 eq, of k4 v4] u3 c3 dist by auto
  obtain m5 where p5: "Put ty m4 k5 v5 = Inr m5" and i5: "small_inv ty m5"
    and c5: "contents (group m5) = [k1 \<mapsto> v1, k2 \<mapsto> v2, k3 \<mapsto> v3, k4 \<mapsto> v4, k5 \<mapsto> v5]"
    and u5: "used m5 = 5"
    using Put_small [OF i4 eq, of k5 v5] u4 c4 dist by auto
  obtain m6 where p6: "Delete ty m5 k3 = Inr m6" and i6: "small_inv ty m6"
    and c6: "contents (group m6)
              = ([k1 \<mapsto> v1, k2 \<mapsto> v2, k3 \<mapsto> v3, k4 \<mapsto> v4, k5 \<mapsto> v5])(k3 := None)"
    and u6: "used m6 = 4"
    using Delete_small [OF i5 eq, of k3] u5 c5 dist by auto
  have run: "applyOps ty m0
      [OpPut k1 v1, OpPut k2 v2, OpPut k3 v3, OpPut k4 v4, OpPut k5 v5, OpDelete k3] = Inr m6"
    by (simp add: p1 p2 p3 p4 p5 p6)
  have g: "\<And>k. Get ty m6 k = Inr (contents (group m6) k)"
    using Get_small [OF i6 eq] .
  have r3: "Get ty m6 k3 = Inr None"
    by (simp add: g c6)
  have r1: "Get ty m6 k1 = Inr (Some v1)"
    using dist by (auto simp: g c6)
  have r2: "Get ty m6 k2 = Inr (Some v2)"
    using dist by (auto simp: g c6)
  have r4: "Get ty m6 k4 = Inr (Some v4)"
    using dist by (auto simp: g c6)
  have r5: "Get ty m6 k5 = Inr (Some v5)"
    using dist by (auto simp: g c6)
  have u: "Used m6 = 4"
    by (simp add: Used_def u6)
  show ?thesis
    by (intro exI [of _ m6] conjI run r3 r1 r2 r4 r5 u)
qed

theorem small_map_put5_delete_witness:
  "(\<forall>a b. KeyEqual natType a b = (a = b)) \<and> dirLen emptySmall = 0 \<and> used emptySmall = 0 \<and>
   distinct [1, 129, 3, 257, 5 :: nat] \<and>
   (\<exists>m. applyOps natType emptySmall
          [OpPut 1 10, OpPut 129 20, OpPut 3 30, OpPut 257 40, OpPut 5 50, OpDelete 3] = Inr m \<and>
        Get natType m 3 = Inr None \<and>
        Get natType m 1 = Inr (Some 10) \<and> Get natType m 129 = Inr (Some 20) \<and>
        Get natType m 257 = Inr (Some 40) \<and> Get natType m 5 = Inr (Some 50) \<and>
        Used m = 4)"
  using small_map_put5_delete [of natType emptySmall 1 129 3 257 5 10 20 30 40 50]
  by (simp add: natType_def emptySmall_def ctrlGroup_get_bitsetEmpty)











subsection \<open>An insertion below eight entries finds an empty slot\<close>

text \<open>
  Every control byte of a small map is empty or occupied: \<open>putSlotSmall\<close> writes an
  H2 value, \<open>deleteSmall\<close> and \<open>clearSmall\<close> write the empty marker.
\<close>

lemma h2_slot_occupied:
  assumes "i < 8"
  shows "occupied (ctrlGroup_set cs i (ucast (h2 h))) i"
  using assms ctrlEmpty_nonzero by (simp add: occupied_def ctrlGroup_get_set h2_occupied)

lemma occupied_set_other:
  assumes "i < 8" and "j < 8" and "i \<noteq> j"
  shows "occupied (ctrlGroup_set cs i c) j = occupied cs j"
  using assms by (simp add: occupied_def ctrlGroup_get_set)

lemma putSlotSmall_empty_or_occupied:
  assumes "\<forall>i<8. ctrlGroup_get (ctrls (group m)) i = ctrlEmpty \<or> occupied (ctrls (group m)) i"
    and "putSlotSmall ty m hash key = Inr (m', s)"
  shows "\<forall>i<8. ctrlGroup_get (ctrls (group m')) i = ctrlEmpty \<or> occupied (ctrls (group m')) i"
proof (cases "matchLoop ty (group m) key (matchH2 (ctrls (group m)) (h2 hash))")
  case (Some i)
  then show ?thesis
    using assms by (auto simp: putSlotSmall_def Let_def split: if_splits)
next
  case None
  show ?thesis
  proof (cases "matchEmpty (ctrls (group m)) = 0")
    case True
    then show ?thesis using assms None by (simp add: putSlotSmall_def Let_def)
  next
    case False
    define f where "f = first (matchEmpty (ctrls (group m)))"
    have f: "f < 8" unfolding f_def using False first_set by blast
    have c: "ctrls (group m') = ctrlGroup_set (ctrls (group m)) f (ucast (h2 hash))"
      using assms(2) None False
      by (auto simp: putSlotSmall_def Let_def f_def split: if_splits)
    show ?thesis
    proof (intro allI impI)
      fix i :: nat assume i: "i < 8"
      show "ctrlGroup_get (ctrls (group m')) i = ctrlEmpty \<or> occupied (ctrls (group m')) i"
      proof (cases "i = f")
        case True
        then show ?thesis unfolding c using h2_slot_occupied [OF f] by simp
      next
        case False
        then show ?thesis
          unfolding c using assms(1) i f
          by (simp add: occupied_set_other ctrlGroup_get_set)
      qed
    qed
  qed
qed

lemma deleteSmall_empty_or_occupied:
  assumes "\<forall>i<8. ctrlGroup_get (ctrls (group m)) i = ctrlEmpty \<or> occupied (ctrls (group m)) i"
  shows "\<forall>i<8. ctrlGroup_get (ctrls (group (deleteSmall ty m hash key))) i = ctrlEmpty \<or>
           occupied (ctrls (group (deleteSmall ty m hash key))) i"
proof (cases "matchLoop ty (group m) key (matchH2 (ctrls (group m)) (h2 hash))")
  case None
  then show ?thesis using assms by (simp add: deleteSmall_def)
next
  case (Some f)
  then have f: "f < 8" unfolding matchLoop_find find_upt8_Some by simp
  have c: "ctrls (group (deleteSmall ty m hash key)) = ctrlGroup_set (ctrls (group m)) f ctrlEmpty"
    using Some by (auto simp: deleteSmall_def Let_def split: if_splits)
  show ?thesis
  proof (intro allI impI)
    fix i :: nat assume i: "i < 8"
    show "ctrlGroup_get (ctrls (group (deleteSmall ty m hash key))) i = ctrlEmpty \<or>
           occupied (ctrls (group (deleteSmall ty m hash key))) i"
    proof (cases "i = f")
      case True
      then show ?thesis unfolding c using f by (simp add: ctrlGroup_get_set)
    next
      case False
      then show ?thesis
        unfolding c using assms i f by (simp add: occupied_set_other ctrlGroup_get_set)
    qed
  qed
qed

lemma clearSmall_empty_or_occupied:
  "\<forall>i<8. ctrlGroup_get (ctrls (group (clearSmall ty m))) i = ctrlEmpty \<or>
     occupied (ctrls (group (clearSmall ty m))) i"
  by (simp add: clearSmall_def ctrlGroup_get_bitsetEmpty)

lemma applyOp_empty_or_occupied:
  assumes "\<forall>i<8. ctrlGroup_get (ctrls (group m)) i = ctrlEmpty \<or> occupied (ctrls (group m)) i"
    and "applyOp ty m x = Inr m'"
  shows "(\<forall>i<8. ctrlGroup_get (ctrls (group m')) i = ctrlEmpty \<or> occupied (ctrls (group m')) i)
         \<and> dirLen m' = 0"
proof (cases x)
  case (OpPut k v)
  then obtain m1 s where ps: "putSlotSmall ty m (Hasher ty k (seed m)) k = Inr (m1, s)"
    and d: "dirLen m = 0"
    and m': "m' = m1\<lparr>group := (group m1)\<lparr>elems := (elems (group m1))[s := v]\<rparr>\<rparr>"
    using assms(2) by (auto simp: Put_def PutSlot_def Let_def split: if_splits sum.splits)
  have "dirLen m1 = dirLen m"
    using ps by (auto simp: putSlotSmall_def Let_def split: if_splits option.splits)
  then show ?thesis
    using putSlotSmall_empty_or_occupied [OF assms(1) ps] d by (simp add: m')
next
  case (OpPutSlot k)
  then obtain s where ps: "putSlotSmall ty m (Hasher ty k (seed m)) k = Inr (m', s)"
    and d: "dirLen m = 0"
    using assms(2)
    by (cases "PutSlot ty m k") (auto simp: PutSlot_def Let_def split: if_splits)
  have "dirLen m' = dirLen m"
    using ps by (auto simp: putSlotSmall_def Let_def split: if_splits option.splits)
  then show ?thesis
    using putSlotSmall_empty_or_occupied [OF assms(1) ps] d by simp
next
  case (OpDelete k)
  then have e: "m' = deleteSmall ty m (Hasher ty k (seed m)) k" and d: "dirLen m = 0"
    using assms(2) by (auto simp: Delete_def Let_def split: if_splits)
  have "dirLen (deleteSmall ty m (Hasher ty k (seed m)) k) = dirLen m"
    by (auto simp: deleteSmall_def Let_def split: if_splits option.splits)
  then show ?thesis
    unfolding e
    using deleteSmall_empty_or_occupied [OF assms(1), of ty "Hasher ty k (seed m)" k] d by simp
next
  case OpClear
  then have e: "m' = clearSmall ty m" and d: "dirLen m = 0"
    using assms(2) by (auto simp: Clear_def split: if_splits)
  show ?thesis
    unfolding e using clearSmall_empty_or_occupied [of ty m] d by (simp add: clearSmall_def)
qed

lemma applyOps_empty_or_occupied:
  assumes "\<forall>i<8. ctrlGroup_get (ctrls (group m)) i = ctrlEmpty \<or> occupied (ctrls (group m)) i"
    and "applyOps ty m ops = Inr m'"
  shows "\<forall>i<8. ctrlGroup_get (ctrls (group m')) i = ctrlEmpty \<or> occupied (ctrls (group m')) i"
  using assms
proof (induction ops arbitrary: m)
  case Nil
  then show ?case by simp
next
  case (Cons x xs)
  then obtain m1 where s: "applyOp ty m x = Inr m1" and r: "applyOps ty m1 xs = Inr m'"
    by (auto split: sum.splits)
  show ?case
    using Cons.IH [OF _ r] applyOp_empty_or_occupied [OF Cons.prems(1) s] by simp
qed

lemma applyOps_seven_example:
  "applyOps natType emptySmall
     [OpPut 0 0, OpPut 1 0, OpPut 2 0, OpPut 3 0, OpPut 4 0, OpPut 5 0, OpPut 6 0] = Inr sevenSmall"
  by code_simp

text \<open>
  C4. In \<open>putSlotSmall\<close>, on a map reached from an empty small map by any sequence of
  \<open>Put\<close>, \<open>PutSlot\<close>, \<open>Delete\<close> and \<open>Clear\<close> operations that stays on the
  small-map path, under the precondition \<open>used < 8\<close> together with the invariant that
  \<open>used\<close> equals the number of occupied control bytes of the inline group, the
  \<open>matchEmpty()\<close> mask is nonzero: the call returns a slot and the panic
  "small map with no empty slot" is not reached.
\<close>

theorem putSlotSmall_empty_slot:
  assumes "dirLen m0 = 0"
    and "\<forall>i<8. ctrlGroup_get (ctrls (group m0)) i = ctrlEmpty"
    and "applyOps ty m0 ops = Inr m"
    and "used m < 8"
    and "unat (used m) = numOccupied (ctrls (group m))"
  shows "matchEmpty (ctrls (group m)) \<noteq> 0 \<and>
         putSlotSmall ty m hash key \<noteq> Inl (Panic ''small map with no empty slot'') \<and>
         (\<exists>r. putSlotSmall ty m hash key = Inr r)"
proof -
  have "\<forall>i<8. ctrlGroup_get (ctrls (group m0)) i = ctrlEmpty \<or> occupied (ctrls (group m0)) i"
    using assms(2) by simp
  then have eo: "\<forall>i<8. ctrlGroup_get (ctrls (group m)) i = ctrlEmpty \<or> occupied (ctrls (group m)) i"
    using applyOps_empty_or_occupied assms(3) by blast
  have "numOccupied (ctrls (group m)) < 8"
    using assms(4,5) by (simp add: word_less_nat_alt)
  then have ne: "matchEmpty (ctrls (group m)) \<noteq> 0"
    using exists_empty eo by blast
  then have r: "\<exists>r. putSlotSmall ty m hash key = Inr r"
    by (cases "matchLoop ty (group m) key (matchH2 (ctrls (group m)) (h2 hash))")
      (simp_all add: putSlotSmall_def Let_def)
  then have "putSlotSmall ty m hash key \<noteq> Inl (Panic ''small map with no empty slot'')"
    by auto
  then show ?thesis using ne r by simp
qed

theorem putSlotSmall_empty_slot_witness:
  "dirLen emptySmall = 0 \<and> ctrls (group emptySmall) = bitsetEmpty \<and>
   applyOps natType emptySmall
     [OpPut 0 0, OpPut 1 0, OpPut 2 0, OpPut 3 0, OpPut 4 0, OpPut 5 0, OpPut 6 0] = Inr sevenSmall \<and>
   used sevenSmall < 8 \<and> unat (used sevenSmall) = numOccupied (ctrls (group sevenSmall)) \<and>
   matchEmpty (ctrls (group sevenSmall)) \<noteq> 0 \<and>
   (\<exists>r. putSlotSmall natType sevenSmall (Hasher natType 100 (seed sevenSmall)) 100 = Inr r)"
proof -
  have e: "\<forall>i<8. ctrlGroup_get (ctrls (group emptySmall)) i = ctrlEmpty"
    by (simp add: emptySmall_def ctrlGroup_get_bitsetEmpty)
  have d: "dirLen emptySmall = 0" "ctrls (group emptySmall) = bitsetEmpty"
    by (simp_all add: emptySmall_def)
  have u: "used sevenSmall < 8" "unat (used sevenSmall) = numOccupied (ctrls (group sevenSmall))"
    by code_simp+
  show ?thesis
    using putSlotSmall_empty_slot [OF d(1) e applyOps_seven_example u,
        of "Hasher natType 100 (seed sevenSmall)" 100]
      d applyOps_seven_example u
    by simp
qed

section \<open>The directory index\<close>

lemma unat_2p: "d < 64 \<Longrightarrow> unat (2 ^ d :: 64 word) = 2 ^ d"
proof -
  assume d: "d < 64"
  have "(2 ^ d :: 64 word) = of_nat (2 ^ d)" by simp
  then have "unat (2 ^ d :: 64 word) = 2 ^ d mod 2 ^ 64"
    by (simp only: unat_of_nat) simp
  moreover have "(2::nat) ^ d < 2 ^ 64" using d by (intro power_strict_increasing) simp_all
  ultimately show ?thesis by simp
qed

lemma and63: "unat (w :: 8 word) < 64 \<Longrightarrow> unat (w AND 63) = unat w"
proof -
  assume a: "unat w < 64"
  have "(63 :: 8 word) = mask 6" by (simp add: mask_eq_exp_minus_1)
  then have "w AND 63 = take_bit 6 w" by (simp add: take_bit_eq_mask)
  then have "unat (w AND 63) = take_bit 6 (unat w)" by (simp add: unsigned_take_bit_eq)
  then show ?thesis using a by (simp add: take_bit_nat_eq_self)
qed

lemma drop_lt: "0 < d \<Longrightarrow> d < 64 \<Longrightarrow> unat (drop_bit (64 - d) (h :: 64 word)) < 2 ^ d"
proof -
  assume d: "0 < d" "d < 64"
  have "unat h < 2 ^ 64" using unsigned_less[of h] by simp
  also have "(2::nat) ^ 64 = 2 ^ (64 - d) * 2 ^ d" using d by (simp flip: power_add)
  finally have "unat h div 2 ^ (64 - d) < 2 ^ d" by (simp add: less_mult_imp_div_less mult.commute)
  moreover have "unat (drop_bit (64 - d) h) = drop_bit (64 - d) (unat h)" by (rule unat_drop_bit_eq)
  moreover have "drop_bit (64 - d) (unat h) = unat h div 2 ^ (64 - d)" by (rule drop_bit_eq_div)
  ultimately show ?thesis by (simp only:)
qed


lemma shl1_pos:
  assumes "1 \<le>s (push_bit d 1 :: 64 word)"
  shows "d < 63"
proof (rule ccontr)
  assume "\<not> d < 63"
  then consider "d = 63" | "64 \<le> d" by linarith
  then show False
  proof cases
    case 1
    then show ?thesis using assms by (simp add: word_sle_eq)
  next
    case 2
    then have z: "(push_bit d 1 :: 64 word) = 0" by simp
    show ?thesis using assms unfolding z by (simp add: word_sle_eq)
  qed
qed

text \<open>
  C10. On a map whose directory satisfies \<open>dirLen = 1 << globalDepth\<close>, \<open>dirLen \<ge> 1\<close>
  (as Go \<open>int\<close>) and \<open>globalShift = 64 - globalDepth\<close>, \<open>directoryIndex(hash)\<close> is
  strictly below \<open>dirLen\<close> for every hash.
\<close>

theorem directoryIndex_in_range:
  assumes "dirLen m = push_bit (unat (globalDepth m)) 1"
    and "1 \<le>s dirLen m"
    and "globalShift m = 64 - globalDepth m"
  shows "directoryIndex m hash < dirLen m"
proof -
  define d where "d = unat (globalDepth m)"
  have d63: "d < 63"
    using assms(1,2) shl1_pos unfolding d_def by metis
  have len: "unat (dirLen m) = 2 ^ d"
    using assms(1) d63 unat_2p [of d] unfolding d_def [symmetric] by simp
  show ?thesis
  proof (cases "d = 0")
    case True
    then show ?thesis
      using assms(1) by (simp add: directoryIndex_def d_def)
  next
    case False
    have "unat (dirLen m) \<noteq> 1"
      using len False by simp
    then have ne1: "dirLen m \<noteq> 1" by auto
    have "globalDepth m \<le> 64"
      using d63 unfolding d_def by (simp add: word_le_nat_alt)
    then have sh: "unat (globalShift m) = 64 - d"
      using assms(3) d_def by (simp add: unat_sub)
    then have "unat (globalShift m AND 63) = 64 - d"
      using and63 [of "globalShift m"] False by simp
    then have "unat (directoryIndex m hash) < 2 ^ d"
      using ne1 drop_lt [of d hash] False d63 by (simp add: directoryIndex_def)
    then show ?thesis
      using len by (simp add: word_less_nat_alt)
  qed
qed

theorem directoryIndex_in_range_witness:
  "dirLen dirMap = push_bit (unat (globalDepth dirMap)) 1 \<and> 1 \<le>s dirLen dirMap \<and>
   globalShift dirMap = 64 - globalDepth dirMap \<and>
   directoryIndex dirMap 0xFFFFFFFFFFFFFFFF < dirLen dirMap \<and>
   directoryIndex dirMap 0xFFFFFFFFFFFFFFFF = 3"
  using directoryIndex_in_range [of dirMap "0xFFFFFFFFFFFFFFFF"]
  by (simp add: dirMap_def directoryIndex_def word_sle_eq drop_bit_eq_div)

section \<open>Properties of P-521 point decoding\<close>

lemma SetBytes_length_67:
  assumes "length b = 1 + p521ElementLength"
  shows "\<exists>err. SetBytes F p b = (Inl err, p)"
  using assms by (simp add: SetBytes_def p521ElementLength_def)

text \<open>
  C9. For every byte slice \<open>b\<close> in the compressed form as the source tests it
  (\<open>len(b) = 1 + 66\<close> and leading byte \<open>0\<close>), \<open>SetBytes(b)\<close> returns \<open>nil\<close> with
  the error "unimplemented", and the receiver is unchanged; none of the earlier
  cases of the \<open>switch\<close> takes such a slice.
\<close>

theorem SetBytes_compressed_unimplemented:
  assumes "length b = 1 + p521ElementLength" and "b ! 0 = 0"
  shows "SetBytes F p b = (Inl ''unimplemented'', p)"
  using assms by (simp add: SetBytes_def p521ElementLength_def)

theorem SetBytes_compressed_unimplemented_witness:
  "length (0 # replicate 66 (1 :: 8 word)) = 1 + p521ElementLength \<and>
   (0 # replicate 66 (1 :: 8 word)) ! 0 = 0 \<and>
   SetBytes natField pointG (0 # replicate 66 1) = (Inl ''unimplemented'', pointG)"
  using SetBytes_compressed_unimplemented [of "0 # replicate 66 1" natField pointG]
  by (simp add: p521ElementLength_def)

section \<open>Installing a split table into the directory\<close>

lemma unat_of_nat64: "n < 2 ^ 64 \<Longrightarrow> unat (of_nat n :: 64 word) = n"
  by (simp add: unat_of_nat)

lemma sint_of_nat64:
  assumes "n < 2 ^ 63"
  shows "sint (of_nat n :: 64 word) = int n"
proof -
  have "(of_nat n :: 64 word) = word_of_int (int n)" by simp
  then have "sint (of_nat n :: 64 word) = (int n + 2 ^ 63) mod 2 ^ 64 - 2 ^ 63"
    by (simp only: int_word_sint) simp
  moreover have "int n + 2 ^ 63 < 2 ^ 64" "0 \<le> int n + 2 ^ 63"
    using assms by simp_all
  ultimately show ?thesis by simp
qed

lemma unat_add_of_nat64:
  fixes a :: "64 word"
  assumes "unat a + n < 2 ^ 64"
  shows "unat (a + of_nat n) = unat a + n"
proof -
  have n: "unat (of_nat n :: 64 word) = n"
    using assms by (simp add: unat_of_nat64)
  then have "unat a + unat (of_nat n :: 64 word) < 2 ^ LENGTH(64)"
    using assms by simp
  then have "unat (a + of_nat n) = unat a + unat (of_nat n :: 64 word)"
    by (rule unat_add_lem [THEN iffD1])
  then show ?thesis using n by simp
qed

lemma pow2_word64:
  assumes "e < 63"
  shows "(push_bit e 1 :: 64 word) = 2 ^ e" and "0 <s (2 ^ e :: 64 word)"
    and "unat (2 ^ e :: 64 word) = 2 ^ e"
proof -
  show "(push_bit e 1 :: 64 word) = 2 ^ e" by simp
  have u: "unat (2 ^ e :: 64 word) = 2 ^ e"
    using assms unat_2p [of e] by simp
  then show "unat (2 ^ e :: 64 word) = 2 ^ e" .
  have "(2 ^ e :: 64 word) = of_nat (2 ^ e)" by simp
  moreover have "(2::nat) ^ e < 2 ^ 63"
    using assms by (intro power_strict_increasing) simp_all
  ultimately have "sint (2 ^ e :: 64 word) = int (2 ^ e)"
    using sint_of_nat64 [of "2 ^ e"] by simp
  then show "0 <s (2 ^ e :: 64 word)"
    by (simp add: word_sless_alt)
qed

lemma unat_succ8:
  fixes a :: "8 word"
  assumes "unat a < 255"
  shows "unat (a + 1) = Suc (unat a)"
proof -
  have "unat a + unat (1 :: 8 word) < 2 ^ LENGTH(8)" using assms by simp
  then have "unat (a + 1) = unat a + unat (1 :: 8 word)"
    by (rule unat_add_lem [THEN iffD1])
  then show ?thesis by simp
qed

lemma unat_diff8:
  fixes a b :: "8 word"
  assumes "unat b \<le> unat a"
  shows "unat (a - b) = unat a - unat b"
  using assms by (simp add: unat_sub word_le_nat_alt)

lemma andThen_Inr [simp]: "andThen (Inr a) f = f a"
  by (simp add: andThen_def)

lemma andThen_Inl [simp]: "andThen (Inl e) f = Inl e"
  by (simp add: andThen_def)

lemma replaceTable_loop_append:
  "replaceTable_loop m nt idx (xs @ ys)
     = andThen (replaceTable_loop m nt idx xs) (\<lambda>m'. replaceTable_loop m' nt idx ys)"
proof (induction xs arbitrary: m)
  case Nil
  then show ?case by simp
next
  case (Cons a xs)
  then show ?case
    by (cases "directorySet m (idx + of_nat a) nt") simp_all
qed

lemma replaceTable_loop_range:
  assumes "unat idx + n \<le> length (directory m)" and "length (directory m) < 2 ^ 62"
  shows "\<exists>d. replaceTable_loop m nt idx [0..<n] = Inr (m\<lparr>directory := d\<rparr>) \<and>
             length d = length (directory m) \<and>
             (\<forall>j < length d. d ! j = (if unat idx \<le> j \<and> j < unat idx + n then nt
                                      else directory m ! j))"
  using assms(1)
proof (induction n)
  case 0
  have "m\<lparr>directory := directory m\<rparr> = m" by simp
  then show ?case
    by (intro exI [of _ "directory m"]) simp
next
  case (Suc n)
  then obtain d where d: "replaceTable_loop m nt idx [0..<n] = Inr (m\<lparr>directory := d\<rparr>)"
    "length d = length (directory m)"
    "\<forall>j < length d. d ! j = (if unat idx \<le> j \<and> j < unat idx + n then nt else directory m ! j)"
    by auto
  have "unat idx + n < 2 ^ 64"
    using Suc.prems assms(2) by (simp add: less_trans [OF _ power_strict_increasing [of 62 64 "2::nat"]])
  then have u: "unat (idx + of_nat n) = unat idx + n"
    by (rule unat_add_of_nat64)
  have lt: "unat idx + n < length d"
    using Suc.prems d(2) by simp
  have step: "directorySet (m\<lparr>directory := d\<rparr>) (idx + of_nat n) nt
      = Inr (m\<lparr>directory := d[unat idx + n := nt]\<rparr>)"
    using lt u by (simp add: directorySet_def)
  have "replaceTable_loop m nt idx [0..<Suc n] = Inr (m\<lparr>directory := d[unat idx + n := nt]\<rparr>)"
    by (simp add: replaceTable_loop_append d(1) step)
  moreover have "\<forall>j < length (d[unat idx + n := nt]).
      d[unat idx + n := nt] ! j
        = (if unat idx \<le> j \<and> j < unat idx + Suc n then nt else directory m ! j)"
  proof (intro allI impI)
    fix j assume j: "j < length (d[unat idx + n := nt])"
    show "d[unat idx + n := nt] ! j
        = (if unat idx \<le> j \<and> j < unat idx + Suc n then nt else directory m ! j)"
    proof (cases "j = unat idx + n")
      case True
      then show ?thesis using j by simp
    next
      case False
      then have "d[unat idx + n := nt] ! j = d ! j" by simp
      then show ?thesis using d(3) j False by auto
    qed
  qed
  ultimately show ?case
    using d(2) by (intro exI [of _ "d[unat idx + n := nt]"]) simp
qed


lemma replaceTable_span:
  assumes t: "tabs nt = Some t"
    and ld: "unat (localDepth t) \<le> unat (globalDepth m)" and gd: "unat (globalDepth m) \<le> 62"
    and fit: "unat (index t) + 2 ^ (unat (globalDepth m) - unat (localDepth t)) \<le> length (directory m)"
    and len: "length (directory m) < 2 ^ 62"
  shows "\<exists>d. replaceTable m tabs nt = Inr (m\<lparr>directory := d\<rparr>) \<and>
             length d = length (directory m) \<and>
             (\<forall>j < length d. d ! j =
                (if unat (index t) \<le> j \<and>
                    j < unat (index t) + 2 ^ (unat (globalDepth m) - unat (localDepth t))
                 then nt else directory m ! j))"
proof -
  define e where "e = unat (globalDepth m) - unat (localDepth t)"
  have e: "unat (globalDepth m - localDepth t) = e"
    using ld by (simp add: e_def unat_diff8)
  have e63: "e < 63" using gd by (simp add: e_def)
  have rt: "replaceTable m tabs nt = replaceTable_loop m nt (index t) [0..<2 ^ e]"
    using pow2_word64 [OF e63] by (simp add: replaceTable_def entries_def tableAt_def t e Let_def)
  show ?thesis
    unfolding rt e_def [symmetric]
    using replaceTable_loop_range [of "index t" "2 ^ e" m nt] fit len
    unfolding e_def by simp
qed

lemma growLoop_append:
  "growLoop m (xs @ ys) st = andThen (growLoop m xs st) (growLoop m ys)"
proof (induction xs arbitrary: st)
  case Nil
  then show ?case by simp
next
  case (Cons a xs)
  then show ?case
    by (cases "growStep m a st") simp_all
qed

lemma aligned_not_double:
  fixes s k span :: nat
  assumes "span dvd s" and "s \<le> k" and "k < s + span" and "s < k"
  shows "2 * s \<noteq> k"
proof (cases "s = 0")
  case True
  then show ?thesis using assms(4) by simp
next
  case False
  then have "span \<le> s" using assms(1) by (simp add: dvd_imp_le)
  then show ?thesis using assms(3) by simp
qed

lemma dir_inv_entry:
  assumes "dir_inv m tabs" and "i < length (directory m)"
  obtains t where "tabs (directory m ! i) = Some t"
    and "unat (localDepth t) \<le> unat (globalDepth m)"
    and "2 ^ (unat (globalDepth m) - unat (localDepth t)) dvd unat (index t)"
    and "unat (index t) \<le> i"
    and "i < unat (index t) + 2 ^ (unat (globalDepth m) - unat (localDepth t))"
    and "\<And>j. unat (index t) \<le> j \<Longrightarrow>
            j < unat (index t) + 2 ^ (unat (globalDepth m) - unat (localDepth t))
            \<Longrightarrow> j < length (directory m) \<and> directory m ! j = directory m ! i"
  using assms unfolding dir_inv_def by blast

lemma dir_inv_len:
  assumes "dir_inv m tabs"
  shows "length (directory m) \<le> 2 ^ 60" and "0 < length (directory m)"
    and "dirLen m = of_nat (length (directory m))"
proof -
  have l: "length (directory m) = 2 ^ unat (globalDepth m)" and g: "unat (globalDepth m) \<le> 60"
    using assms by (simp_all add: dir_inv_def)
  have "(2::nat) ^ unat (globalDepth m) \<le> 2 ^ 60"
    using g by (intro power_increasing) simp_all
  then show "length (directory m) \<le> 2 ^ 60"
    unfolding l .
  show "0 < length (directory m)"
    unfolding l by simp
  show "dirLen m = of_nat (length (directory m))"
    using assms by (simp add: dir_inv_def)
qed

lemma dir_inv_index_at:
  assumes inv: "dir_inv m tabs" and t: "t \<in> set (directory m)" and tt: "tabs t = Some tt"
  shows "unat (index tt) < length (directory m)" and "directory m ! unat (index tt) = t"
proof -
  obtain i where i: "i < length (directory m)" "directory m ! i = t"
    using t by (auto simp: in_set_conv_nth)
  obtain t' where t': "tabs (directory m ! i) = Some t'"
    "unat (index t') \<le> i"
    "i < unat (index t') + 2 ^ (unat (globalDepth m) - unat (localDepth t'))"
    "\<And>j. unat (index t') \<le> j \<Longrightarrow>
            j < unat (index t') + 2 ^ (unat (globalDepth m) - unat (localDepth t'))
            \<Longrightarrow> j < length (directory m) \<and> directory m ! j = directory m ! i"
    using dir_inv_entry [OF inv i(1)] by metis
  have e: "t' = tt" using t' i tt by simp
  have "unat (index tt) < unat (index tt) + 2 ^ (unat (globalDepth m) - unat (localDepth tt))"
    by simp
  then have "unat (index tt) < length (directory m) \<and> directory m ! unat (index tt) = directory m ! i"
    using t'(4) [of "unat (index tt)"] unfolding e by simp
  then show "unat (index tt) < length (directory m)" "directory m ! unat (index tt) = t"
    using i by simp_all
qed


lemma sliceSet_of_nat:
  assumes "j < length xs" and "length xs < 2 ^ 63"
  shows "sliceSet xs (of_nat j) v = Inr (xs[j := v])"
proof -
  have "j < 2 ^ 63" using assms by simp
  then have "sint (of_nat j :: 64 word) = int j" by (rule sint_of_nat64)
  then show ?thesis using assms(1) by (simp add: sliceSet_def word_sle_eq)
qed

lemma doubleIndices_other:
  assumes inv: "dir_inv m tabs" and k: "k < length (directory m)" and ne: "t' \<noteq> directory m ! k"
  shows "doubleIndices (directory m) (Suc k) tabs t' = doubleIndices (directory m) k tabs t'"
proof (cases "tabs t'")
  case None
  then show ?thesis by (simp add: doubleIndices_def)
next
  case (Some tt')
  show ?thesis
  proof (cases "t' \<in> set (directory m)")
    case True
    have "directory m ! unat (index tt') = t'"
      using dir_inv_index_at [OF inv True Some] by simp
    then have "unat (index tt') \<noteq> k" using ne by auto
    then have "unat (index tt') < Suc k \<longleftrightarrow> unat (index tt') < k" by auto
    then show ?thesis using Some by (simp add: doubleIndices_def)
  next
    case False
    then show ?thesis using Some by (simp add: doubleIndices_def)
  qed
qed

lemma growStep_at:
  assumes inv: "dir_inv m tabs" and k: "k < length (directory m)"
    and nd: "length nd = 2 * length (directory m)"
  shows "growStep m k (nd, doubleIndices (directory m) k tabs)
          = Inr (nd[2 * k := directory m ! k, 2 * k + 1 := directory m ! k],
                 doubleIndices (directory m) (Suc k) tabs)"
proof -
  define t where "t = directory m ! k"
  have n60: "length (directory m) \<le> 2 ^ 60" using dir_inv_len [OF inv] by simp
  have tin: "t \<in> set (directory m)" using k by (simp add: t_def)
  obtain tt0 where tt0: "tabs t = Some tt0"
    and al: "2 ^ (unat (globalDepth m) - unat (localDepth tt0)) dvd unat (index tt0)"
    and le: "unat (index tt0) \<le> k"
    and lt: "k < unat (index tt0) + 2 ^ (unat (globalDepth m) - unat (localDepth tt0))"
    using dir_inv_entry [OF inv k] unfolding t_def by metis
  have k64: "k < 2 ^ 64" using k n60 by simp
  have a: "directoryAt m (of_nat k) = Inr t"
    using k unat_of_nat64 [OF k64] by (simp add: directoryAt_def t_def)
  have l63: "length nd < 2 ^ 63" using nd n60 by simp
  have b: "sliceSet nd (2 * of_nat k) t = Inr (nd[2 * k := t])"
    using sliceSet_of_nat [of "2 * k" nd t] k nd l63 by simp
  have c: "sliceSet (nd[2 * k := t]) (2 * of_nat k + 1) t = Inr (nd[2 * k := t, 2 * k + 1 := t])"
    using sliceSet_of_nat [of "2 * k + 1" "nd[2 * k := t]" t] k nd l63 by (simp add: add.commute)
  show ?thesis
  proof (cases "unat (index tt0) < k")
    case True
    have d: "tableAt (doubleIndices (directory m) k tabs) t = Inr (tt0\<lparr>index := 2 * index tt0\<rparr>)"
      using tt0 tin True by (simp add: tableAt_def doubleIndices_def)
    have s61: "unat (index tt0) < 2 ^ 61" using True k n60 by simp
    have "2 * index tt0 = index tt0 + of_nat (unat (index tt0))" by simp
    then have "unat (2 * index tt0) = unat (index tt0) + unat (index tt0)"
      using unat_add_of_nat64 [of "index tt0" "unat (index tt0)"] s61 by simp
    then have "unat (2 * index tt0) \<noteq> k"
      using aligned_not_double [OF al le lt True] by simp
    then have ne: "2 * index tt0 \<noteq> of_nat k"
      using unat_of_nat64 [OF k64] by auto
    have "doubleIndices (directory m) (Suc k) tabs = doubleIndices (directory m) k tabs"
    proof
      fix t'
      show "doubleIndices (directory m) (Suc k) tabs t' = doubleIndices (directory m) k tabs t'"
      proof (cases "t' = t")
        case True
        then show ?thesis using tt0 tin \<open>unat (index tt0) < k\<close> by (simp add: doubleIndices_def)
      next
        case False
        then show ?thesis using doubleIndices_other [OF inv k] by (simp add: t_def)
      qed
    qed
    then show ?thesis
      using a b c d ne by (simp add: growStep_def t_def [symmetric])
  next
    case False
    then have eqk: "unat (index tt0) = k" using le by simp
    have "of_nat (unat (index tt0)) = index tt0" by simp
    then have ik: "index tt0 = of_nat k" using eqk by simp
    have d: "tableAt (doubleIndices (directory m) k tabs) t = Inr tt0"
      using tt0 tin False by (simp add: tableAt_def doubleIndices_def)
    have "(doubleIndices (directory m) k tabs)(t \<mapsto> tt0\<lparr>index := 2 * of_nat k\<rparr>)
        = doubleIndices (directory m) (Suc k) tabs"
    proof
      fix t'
      show "((doubleIndices (directory m) k tabs)(t \<mapsto> tt0\<lparr>index := 2 * of_nat k\<rparr>)) t'
          = doubleIndices (directory m) (Suc k) tabs t'"
      proof (cases "t' = t")
        case True
        then show ?thesis using tt0 tin eqk ik by (simp add: doubleIndices_def)
      next
        case False
        then show ?thesis using doubleIndices_other [OF inv k, of t'] by (simp add: t_def)
      qed
    qed
    then show ?thesis
      using a b c d ik by (simp add: growStep_def t_def [symmetric])
  qed
qed

lemma growLoop_prefix:
  assumes inv: "dir_inv m tabs" and k: "k \<le> length (directory m)"
  shows "\<exists>nd. growLoop m [0..<k] (replicate (2 * length (directory m)) 0, tabs)
               = Inr (nd, doubleIndices (directory m) k tabs) \<and>
             length nd = 2 * length (directory m) \<and>
             (\<forall>j < 2 * k. nd ! j = directory m ! (j div 2))"
  using k
proof (induction k)
  case 0
  have "doubleIndices (directory m) 0 tabs = tabs"
    by (rule ext) (simp add: doubleIndices_def split: option.splits)
  then show ?case by simp
next
  case (Suc k)
  then obtain nd where nd: "growLoop m [0..<k] (replicate (2 * length (directory m)) 0, tabs)
               = Inr (nd, doubleIndices (directory m) k tabs)"
    "length nd = 2 * length (directory m)"
    "\<forall>j < 2 * k. nd ! j = directory m ! (j div 2)"
    by auto
  have k: "k < length (directory m)" using Suc.prems by simp
  define nd' where "nd' = nd[2 * k := directory m ! k, 2 * k + 1 := directory m ! k]"
  have run: "growLoop m [0..<Suc k] (replicate (2 * length (directory m)) 0, tabs)
      = Inr (nd', doubleIndices (directory m) (Suc k) tabs)"
    by (simp add: growLoop_append nd(1) growStep_at [OF inv k nd(2)] nd'_def)
  have len: "length nd' = 2 * length (directory m)"
    by (simp add: nd'_def nd(2))
  have "\<forall>j < 2 * Suc k. nd' ! j = directory m ! (j div 2)"
  proof (intro allI impI)
    fix j assume j: "j < 2 * Suc k"
    have "j < 2 * k \<or> j = 2 * k \<or> j = 2 * k + 1" using j by arith
    then consider "j < 2 * k" | "j = 2 * k" | "j = 2 * k + 1" by blast
    then show "nd' ! j = directory m ! (j div 2)"
    proof cases
      case 1
      then show ?thesis using nd(3) by (simp add: nd'_def)
    next
      case 2
      then show ?thesis using k nd(2) by (simp add: nd'_def)
    next
      case 3
      then show ?thesis using k nd(2) by (simp add: nd'_def)
    qed
  qed
  then show ?case using run len by blast
qed


lemma growDirectory_doubles:
  assumes inv: "dir_inv m tabs"
  shows "\<exists>nd. growDirectory m tabs
               = Inr (m\<lparr>globalDepth := globalDepth m + 1, globalShift := globalShift m - 1,
                        directory := nd, dirLen := of_nat (2 * length (directory m))\<rparr>,
                      doubleIndices (directory m) (length (directory m)) tabs) \<and>
             length nd = 2 * length (directory m) \<and>
             (\<forall>j < 2 * length (directory m). nd ! j = directory m ! (j div 2))"
proof -
  define n where "n = length (directory m)"
  have n: "n \<le> 2 ^ 60" "0 < n" "dirLen m = of_nat n"
    using dir_inv_len [OF inv] by (simp_all add: n_def)
  have "dirLen m * 2 = of_nat (2 * n)" using n(3) by simp
  moreover have "sint (of_nat (2 * n) :: 64 word) = int (2 * n)"
    using n(1) by (intro sint_of_nat64) simp
  ultimately have s2: "sint (dirLen m * 2) = int (2 * n)" by simp
  have s1: "sint (dirLen m) = int n"
    unfolding n(3) using n(1) by (intro sint_of_nat64) simp
  have u1: "unat (dirLen m) = n"
    unfolding n(3) using n(1) by (intro unat_of_nat64) simp
  obtain nd where nd: "growLoop m [0..<n] (replicate (2 * n) 0, tabs)
               = Inr (nd, doubleIndices (directory m) n tabs)"
    "length nd = 2 * n" "\<forall>j < 2 * n. nd ! j = directory m ! (j div 2)"
    using growLoop_prefix [OF inv, of n] unfolding n_def by auto
  have pos: "0 <s dirLen m" using s1 n(2) by (simp add: word_sless_alt)
  have a: "\<not> sint (dirLen m * 2) < 0" and b: "nat (sint (dirLen m * 2)) = 2 * n"
    unfolding s2 by simp_all
  have "growDirectory m tabs
      = Inr (m\<lparr>globalDepth := globalDepth m + 1, globalShift := globalShift m - 1,
               directory := nd, dirLen := of_nat (2 * n)\<rparr>,
             doubleIndices (directory m) n tabs)"
    unfolding growDirectory_def Let_def using a b pos u1 nd(1,2) by simp
  then show ?thesis using nd(2,3) unfolding n_def by blast
qed

lemma installLeftRight_spans:
  assumes ot1: "tabs1 old = Some ot1" and lt1: "tabs1 left = Some lt1" and rt1: "tabs1 right = Some rt1"
    and dist: "left \<noteq> old" "right \<noteq> old" "left \<noteq> right"
    and ldl: "localDepth lt1 = localDepth ot1 + 1" and ldr: "localDepth rt1 = localDepth ot1 + 1"
    and deep: "unat (localDepth ot1) < unat (globalDepth m1)" and gd: "unat (globalDepth m1) \<le> 61"
    and len: "length (directory m1) < 2 ^ 62"
    and fit: "unat (index ot1) + 2 ^ (unat (globalDepth m1) - unat (localDepth ot1))
                \<le> length (directory m1)"
  shows "\<exists>d. installLeftRight m1 tabs1 old left right
              = Inr (m1\<lparr>directory := d\<rparr>,
                     tabs1(left \<mapsto> lt1\<lparr>index := index ot1\<rparr>,
                           right \<mapsto> rt1\<lparr>index := index ot1
                              + 2 ^ (unat (globalDepth m1) - Suc (unat (localDepth ot1)))\<rparr>)) \<and>
            length d = length (directory m1) \<and>
            (\<forall>j < length d. d ! j =
               (if unat (index ot1) \<le> j \<and>
                   j < unat (index ot1) + 2 ^ (unat (globalDepth m1) - Suc (unat (localDepth ot1)))
                then left
                else if unat (index ot1) + 2 ^ (unat (globalDepth m1) - Suc (unat (localDepth ot1))) \<le> j \<and>
                   j < unat (index ot1) + 2 * 2 ^ (unat (globalDepth m1) - Suc (unat (localDepth ot1)))
                then right
                else directory m1 ! j))"
proof -
  define g where "g = unat (globalDepth m1)"
  define l where "l = unat (localDepth ot1)"
  define e where "e = g - Suc l"
  define oi where "oi = unat (index ot1)"
  have lg: "l < g" "g \<le> 61" using deep gd by (simp_all add: g_def l_def)
  have ul: "unat (localDepth ot1 + 1) = Suc l"
    using lg unat_succ8 [of "localDepth ot1"] by (simp add: l_def)
  have pw: "(2::nat) ^ (g - l) = 2 * 2 ^ e"
    using lg by (simp add: e_def flip: power_Suc)
  have fit': "oi + 2 * 2 ^ e \<le> length (directory m1)"
    using fit pw by (simp add: g_def l_def oi_def)
  define tabs2 where "tabs2 = tabs1(left \<mapsto> lt1\<lparr>index := index ot1\<rparr>)"
  have t2l: "tabs2 left = Some (lt1\<lparr>index := index ot1\<rparr>)" by (simp add: tabs2_def)
  have t2r: "tabs2 right = Some rt1" using dist rt1 by (simp add: tabs2_def)
  obtain d2 where d2: "replaceTable m1 tabs2 left = Inr (m1\<lparr>directory := d2\<rparr>)"
    "length d2 = length (directory m1)"
    "\<forall>j < length d2. d2 ! j = (if oi \<le> j \<and> j < oi + 2 ^ e then left else directory m1 ! j)"
    using replaceTable_span [of tabs2 left "lt1\<lparr>index := index ot1\<rparr>" m1] t2l lg ul fit' len ldl
    by (auto simp: g_def [symmetric] e_def oi_def)
  define m2 where "m2 = m1\<lparr>directory := d2\<rparr>"
  have e63: "e < 63" using lg by (simp add: e_def)
  have "unat (globalDepth m2 - localDepth (lt1\<lparr>index := index ot1\<rparr>)) = e"
    using unat_diff8 [of "localDepth ot1 + 1" "globalDepth m1"] ul lg ldl
    by (simp add: m2_def e_def g_def)
  then have en: "entries m2 (lt1\<lparr>index := index ot1\<rparr>) = 2 ^ e"
    by (simp add: entries_def)
  have ue: "unat (2 ^ e :: 64 word) = 2 ^ e" using pow2_word64 [OF e63] by simp
  have "(2 ^ e :: 64 word) = of_nat (2 ^ e)" by simp
  moreover have "oi + 2 ^ e < 2 ^ 64"
    using fit' len by (simp add: less_trans [OF _ power_strict_increasing [of 62 64 "2::nat"]])
  ultimately have ri: "unat (index ot1 + 2 ^ e) = oi + 2 ^ e"
    using unat_add_of_nat64 [of "index ot1" "2 ^ e"] by (simp add: oi_def)
  define tabs3 where "tabs3 = tabs2(right \<mapsto> rt1\<lparr>index := index ot1 + 2 ^ e\<rparr>)"
  have t3r: "tabs3 right = Some (rt1\<lparr>index := index ot1 + 2 ^ e\<rparr>)" by (simp add: tabs3_def)
  obtain d3 where d3: "replaceTable m2 tabs3 right = Inr (m2\<lparr>directory := d3\<rparr>)"
    "length d3 = length (directory m2)"
    "\<forall>j < length d3. d3 ! j = (if oi + 2 ^ e \<le> j \<and> j < oi + 2 ^ e + 2 ^ e then right
                              else directory m2 ! j)"
    using replaceTable_span [of tabs3 right "rt1\<lparr>index := index ot1 + 2 ^ e\<rparr>" m2]
      t3r lg ul fit' len ldr d2(2) ri
    by (auto simp: m2_def g_def [symmetric] e_def [symmetric])
  have a1: "tableAt tabs1 old = Inr ot1" and a2: "tableAt tabs1 left = Inr lt1"
    using ot1 lt1 by (simp_all add: tableAt_def)
  have a4: "tableAt tabs2 left = Inr (lt1\<lparr>index := index ot1\<rparr>)"
    and a5: "tableAt tabs2 right = Inr rt1"
    using t2l t2r by (simp_all add: tableAt_def)
  have run: "installLeftRight m1 tabs1 old left right = Inr (m1\<lparr>directory := d3\<rparr>, tabs3)"
    unfolding installLeftRight_def Let_def a1 a2 andThen_Inr tabs2_def [symmetric]
      d2(1) a4 a5 m2_def [symmetric] en
    using d3(1) by (simp add: m2_def tabs3_def)
  have l3: "length d3 = length (directory m1)" using d3(2) d2(2) by (simp add: m2_def)
  have c3: "\<forall>j < length d3. d3 ! j =
      (if oi \<le> j \<and> j < oi + 2 ^ e then left
       else if oi + 2 ^ e \<le> j \<and> j < oi + 2 * 2 ^ e then right
       else directory m1 ! j)"
  proof (intro allI impI)
    fix j assume j: "j < length d3"
    then have j2: "j < length d2" using l3 d2(2) by simp
    show "d3 ! j = (if oi \<le> j \<and> j < oi + 2 ^ e then left
       else if oi + 2 ^ e \<le> j \<and> j < oi + 2 * 2 ^ e then right
       else directory m1 ! j)"
      using d3(3) j d2(3) j2 by (auto simp: m2_def)
  qed
  show ?thesis
    apply (rule exI [of _ d3])
    using run l3 c3
    unfolding tabs3_def tabs2_def e_def g_def l_def oi_def by simp
qed

lemma installLeftRight_final:
  assumes ot1: "tabs1 old = Some ot1" and lt1: "tabs1 left = Some lt1" and rt1: "tabs1 right = Some rt1"
    and dist: "left \<noteq> old" "right \<noteq> old" "left \<noteq> right"
    and ldl: "localDepth lt1 = localDepth ot1 + 1" and ldr: "localDepth rt1 = localDepth ot1 + 1"
    and deep: "unat (localDepth ot1) < unat (globalDepth m1)" and gd: "unat (globalDepth m1) \<le> 61"
    and len: "length (directory m1) < 2 ^ 62"
    and fit: "unat (index ot1) + 2 ^ (unat (globalDepth m1) - unat (localDepth ot1))
                \<le> length (directory m1)"
  shows "\<exists>m' tabs' lt' rt'.
           installLeftRight m1 tabs1 old left right = Inr (m', tabs') \<and>
           tabs' old = Some ot1 \<and> tabs' left = Some lt' \<and> tabs' right = Some rt' \<and>
           localDepth lt' = localDepth lt1 \<and> localDepth rt' = localDepth rt1 \<and>
           globalDepth m' = globalDepth m1 \<and> globalShift m' = globalShift m1 \<and>
           dirLen m' = dirLen m1 \<and> length (directory m') = length (directory m1) \<and>
           index lt' = index ot1 \<and> index rt' = index ot1 + entries m' lt' \<and>
           unat (entries m' lt') = 2 ^ (unat (globalDepth m') - unat (localDepth lt')) \<and>
           unat (entries m' rt') = 2 ^ (unat (globalDepth m') - unat (localDepth rt')) \<and>
           unat (index ot1) + unat (entries m' lt') + unat (entries m' rt') \<le> length (directory m') \<and>
           (\<forall>j < length (directory m'). directory m' ! j =
              (if unat (index ot1) \<le> j \<and> j < unat (index ot1) + unat (entries m' lt') then left
               else if unat (index ot1) + unat (entries m' lt') \<le> j \<and>
                       j < unat (index ot1) + unat (entries m' lt') + unat (entries m' rt') then right
               else directory m1 ! j))"
proof -
  define e where "e = unat (globalDepth m1) - Suc (unat (localDepth ot1))"
  obtain d where d: "installLeftRight m1 tabs1 old left right
              = Inr (m1\<lparr>directory := d\<rparr>,
                     tabs1(left \<mapsto> lt1\<lparr>index := index ot1\<rparr>,
                           right \<mapsto> rt1\<lparr>index := index ot1 + 2 ^ e\<rparr>))"
    "length d = length (directory m1)"
    "\<forall>j < length d. d ! j =
               (if unat (index ot1) \<le> j \<and> j < unat (index ot1) + 2 ^ e then left
                else if unat (index ot1) + 2 ^ e \<le> j \<and> j < unat (index ot1) + 2 * 2 ^ e then right
                else directory m1 ! j)"
    using installLeftRight_spans [OF assms] unfolding e_def by blast
  define m' where "m' = m1\<lparr>directory := d\<rparr>"
  define lt' where "lt' = lt1\<lparr>index := index ot1\<rparr>"
  define rt' where "rt' = rt1\<lparr>index := index ot1 + 2 ^ e\<rparr>"
  define tabs' where "tabs' = tabs1(left \<mapsto> lt', right \<mapsto> rt')"
  have lg: "unat (localDepth ot1) < unat (globalDepth m1)" "unat (globalDepth m1) \<le> 61"
    using deep gd by simp_all
  have ul: "unat (localDepth ot1 + 1) = Suc (unat (localDepth ot1))"
    using lg unat_succ8 [of "localDepth ot1"] by simp
  have e63: "e < 63" using lg by (simp add: e_def)
  have ex: "unat (globalDepth m1 - (localDepth ot1 + 1)) = e"
    using unat_diff8 [of "localDepth ot1 + 1" "globalDepth m1"] ul lg by (simp add: e_def)
  have enl: "entries m' lt' = 2 ^ e" and enr: "entries m' rt' = 2 ^ e"
    using ex ldl ldr by (simp_all add: entries_def m'_def lt'_def rt'_def)
  have ue: "unat (2 ^ e :: 64 word) = 2 ^ e" using pow2_word64 [OF e63] by simp
  have pw: "(2::nat) ^ (unat (globalDepth m1) - unat (localDepth ot1)) = 2 * 2 ^ e"
    using lg by (simp add: e_def flip: power_Suc)
  have c1: "installLeftRight m1 tabs1 old left right = Inr (m', tabs')"
    using d(1) by (simp add: m'_def tabs'_def lt'_def rt'_def)
  have c2: "tabs' old = Some ot1" "tabs' left = Some lt'" "tabs' right = Some rt'"
    using dist ot1 by (simp_all add: tabs'_def)
  have c3: "localDepth lt' = localDepth lt1" "localDepth rt' = localDepth rt1"
    "globalDepth m' = globalDepth m1" "globalShift m' = globalShift m1" "dirLen m' = dirLen m1"
    "length (directory m') = length (directory m1)" "index lt' = index ot1"
    "index rt' = index ot1 + entries m' lt'"
    using d(2) enl by (simp_all add: lt'_def rt'_def m'_def)
  have c4: "unat (entries m' lt') = 2 ^ (unat (globalDepth m') - unat (localDepth lt'))"
    "unat (entries m' rt') = 2 ^ (unat (globalDepth m') - unat (localDepth rt'))"
    unfolding enl enr c3 using ue ul ldl ldr by (simp_all add: e_def)
  have c5: "unat (index ot1) + unat (entries m' lt') + unat (entries m' rt') \<le> length (directory m')"
    unfolding enl enr ue c3 using fit pw by simp
  have c6: "\<forall>j < length (directory m'). directory m' ! j =
              (if unat (index ot1) \<le> j \<and> j < unat (index ot1) + unat (entries m' lt') then left
               else if unat (index ot1) + unat (entries m' lt') \<le> j \<and>
                       j < unat (index ot1) + unat (entries m' lt') + unat (entries m' rt') then right
               else directory m1 ! j)"
    unfolding enl enr ue using d(3) by (simp add: m'_def)
  show ?thesis
    by (intro exI [of _ m'] exI [of _ tabs'] exI [of _ lt'] exI [of _ rt'] conjI c1 c2 c3 c4 c5 c6)
qed

lemma dir_inv_member:
  assumes inv: "dir_inv m tabs" and t: "t \<in> set (directory m)" and tt: "tabs t = Some tt"
  shows "unat (localDepth tt) \<le> unat (globalDepth m)"
    and "unat (index tt) + 2 ^ (unat (globalDepth m) - unat (localDepth tt)) \<le> length (directory m)"
proof -
  have i: "unat (index tt) < length (directory m)" "directory m ! unat (index tt) = t"
    using dir_inv_index_at [OF inv t tt] by simp_all
  obtain t' where t': "tabs (directory m ! unat (index tt)) = Some t'"
    "unat (localDepth t') \<le> unat (globalDepth m)"
    "\<And>j. unat (index t') \<le> j \<Longrightarrow>
            j < unat (index t') + 2 ^ (unat (globalDepth m) - unat (localDepth t'))
            \<Longrightarrow> j < length (directory m) \<and> directory m ! j = directory m ! unat (index tt)"
    using dir_inv_entry [OF inv i(1)] by metis
  have e: "t' = tt" using t'(1) i(2) tt by simp
  show "unat (localDepth tt) \<le> unat (globalDepth m)" using t'(2) e by simp
  define sp where "sp = (2::nat) ^ (unat (globalDepth m) - unat (localDepth tt))"
  have "0 < sp" by (simp add: sp_def)
  then have "unat (index tt) + sp - 1 < length (directory m)"
    using t'(3) [of "unat (index tt) + sp - 1"] unfolding e sp_def [symmetric] by simp
  then show "unat (index tt) + 2 ^ (unat (globalDepth m) - unat (localDepth tt))
      \<le> length (directory m)"
    using \<open>0 < sp\<close> unfolding sp_def [symmetric] by simp
qed

lemma doubleIndices_localDepth:
  assumes "tabs t = Some tt"
  shows "\<exists>tt'. doubleIndices dir k tabs t = Some tt' \<and> localDepth tt' = localDepth tt"
  using assms by (simp add: doubleIndices_def)

lemma doubleIndices_member:
  assumes "tabs t = Some tt" and "t \<in> set dir" and "unat (index tt) < k"
  shows "doubleIndices dir k tabs t = Some (tt\<lparr>index := 2 * index tt\<rparr>)"
  using assms by (simp add: doubleIndices_def)

lemma dir_inv_example: "dir_inv dirMap dirTables"
proof -
  have "\<exists>t. dirTables (directory dirMap ! i) = Some t \<and>
            unat (localDepth t) \<le> unat (globalDepth dirMap) \<and>
            2 ^ (unat (globalDepth dirMap) - unat (localDepth t)) dvd unat (index t) \<and>
            unat (index t) \<le> i \<and>
            i < unat (index t) + 2 ^ (unat (globalDepth dirMap) - unat (localDepth t)) \<and>
            (\<forall>j. unat (index t) \<le> j \<and>
                 j < unat (index t) + 2 ^ (unat (globalDepth dirMap) - unat (localDepth t))
                 \<longrightarrow> j < length (directory dirMap) \<and> directory dirMap ! j = directory dirMap ! i)"
    if "i < length (directory dirMap)" for i
  proof -
    have "i < 4" using that by (simp add: dirMap_def)
    then consider "i = 0" | "i = 1" | "i = 2" | "i = 3" by arith
    note c = this
    have t1: "dirTables 1 = Some \<lparr>index = 0, localDepth = 1\<rparr>"
      and t2: "dirTables 2 = Some \<lparr>index = 2, localDepth = 2\<rparr>"
      and t3: "dirTables 3 = Some \<lparr>index = 3, localDepth = 2\<rparr>"
      by (simp_all add: dirTables_def)
    have d: "directory dirMap = [1, 1, 2, 3]" "globalDepth dirMap = 2"
      by (simp_all add: dirMap_def)
    from c show ?thesis
    proof cases
      case 1
      show ?thesis
        unfolding d 1 by (rule exI [of _ "\<lparr>index = 0, localDepth = 1\<rparr>"]) (use t1 in \<open>auto simp: less_Suc_eq\<close>)
    next
      case 2
      show ?thesis
        unfolding d 2 by (rule exI [of _ "\<lparr>index = 0, localDepth = 1\<rparr>"]) (use t1 in \<open>auto simp: less_Suc_eq\<close>)
    next
      case 3
      show ?thesis
        unfolding d 3 by (rule exI [of _ "\<lparr>index = 2, localDepth = 2\<rparr>"]) (use t2 in auto)
    next
      case 4
      show ?thesis
        unfolding d 4 by (rule exI [of _ "\<lparr>index = 3, localDepth = 2\<rparr>"]) (use t3 in auto)
    qed
  qed
  then show ?thesis
    unfolding dir_inv_def by (simp add: dirMap_def)
qed

text \<open>
  C5. For every call \<open>installTableSplit(old, left, right)\<close> on a map satisfying the
  directory invariants, where \<open>old\<close> is a table of the directory and \<open>left\<close> and
  \<open>right\<close> are two further tables, distinct from \<open>old\<close> and from each other, one level
  deeper than \<open>old\<close>: the call returns; if \<open>old.localDepth = globalDepth\<close> the
  directory is doubled first (entry \<open>j\<close> of the new directory is entry \<open>j div 2\<close> of
  the old one, \<open>globalDepth\<close> is one more, and \<open>old.index\<close> is doubled), otherwise
  the directory keeps its length and depth; afterwards \<open>left\<close> occupies exactly the
  \<open>1 << (globalDepth - left.localDepth)\<close> contiguous slots starting at \<open>old\<close>'s index,
  \<open>right\<close> exactly the \<open>1 << (globalDepth - right.localDepth)\<close> slots immediately
  after them, both spans lie inside the directory, and every other slot is as the
  (possibly doubled) directory had it.
\<close>

theorem installTableSplit_spans:
  assumes inv: "dir_inv m tabs"
    and old: "old \<in> set (directory m)" and ot: "tabs old = Some ot"
    and lt: "tabs left = Some lt" and ldl: "localDepth lt = localDepth ot + 1"
    and rt: "tabs right = Some rt" and ldr: "localDepth rt = localDepth ot + 1"
    and dist: "left \<noteq> old" "right \<noteq> old" "left \<noteq> right"
  shows "\<exists>m' tabs' ot' lt' rt'.
           installTableSplit m tabs old left right = Inr (m', tabs') \<and>
           tabs' old = Some ot' \<and> tabs' left = Some lt' \<and> tabs' right = Some rt' \<and>
           localDepth lt' = localDepth lt \<and> localDepth rt' = localDepth rt \<and>
           globalDepth m' = (if localDepth ot = globalDepth m then globalDepth m + 1
                             else globalDepth m) \<and>
           length (directory m') = (if localDepth ot = globalDepth m
                                    then 2 * length (directory m) else length (directory m)) \<and>
           dirLen m' = of_nat (length (directory m')) \<and>
           index ot' = (if localDepth ot = globalDepth m then 2 * index ot else index ot) \<and>
           index lt' = index ot' \<and> index rt' = index lt' + entries m' lt' \<and>
           unat (entries m' lt') = 2 ^ (unat (globalDepth m') - unat (localDepth lt')) \<and>
           unat (entries m' rt') = 2 ^ (unat (globalDepth m') - unat (localDepth rt')) \<and>
           unat (index ot') + unat (entries m' lt') + unat (entries m' rt')
             \<le> length (directory m') \<and>
           (\<forall>j < length (directory m'). directory m' ! j =
              (if unat (index ot') \<le> j \<and> j < unat (index ot') + unat (entries m' lt') then left
               else if unat (index ot') + unat (entries m' lt') \<le> j \<and>
                       j < unat (index ot') + unat (entries m' lt') + unat (entries m' rt')
                    then right
               else if localDepth ot = globalDepth m then directory m ! (j div 2)
               else directory m ! j))"
proof (cases "localDepth ot = globalDepth m")
  case False
  have le: "unat (localDepth ot) \<le> unat (globalDepth m)"
    and fit: "unat (index ot) + 2 ^ (unat (globalDepth m) - unat (localDepth ot))
                \<le> length (directory m)"
    using dir_inv_member [OF inv old ot] by simp_all
  have deep: "unat (localDepth ot) < unat (globalDepth m)"
    using le False by (simp add: word_unat_eq_iff)
  have gd: "unat (globalDepth m) \<le> 61" using inv by (simp add: dir_inv_def)
  have "length (directory m) \<le> 2 ^ 60" using dir_inv_len(1) [OF inv] .
  then have len: "length (directory m) < 2 ^ 62" by simp
  have run: "installTableSplit m tabs old left right = installLeftRight m tabs old left right"
    using False ot by (simp add: installTableSplit_def tableAt_def)
  obtain m' tabs' lt' rt' where r:
    "installLeftRight m tabs old left right = Inr (m', tabs')"
    "tabs' old = Some ot" "tabs' left = Some lt'" "tabs' right = Some rt'"
    "localDepth lt' = localDepth lt" "localDepth rt' = localDepth rt"
    "globalDepth m' = globalDepth m" "dirLen m' = dirLen m"
    "length (directory m') = length (directory m)"
    "index lt' = index ot" "index rt' = index ot + entries m' lt'"
    "unat (entries m' lt') = 2 ^ (unat (globalDepth m') - unat (localDepth lt'))"
    "unat (entries m' rt') = 2 ^ (unat (globalDepth m') - unat (localDepth rt'))"
    "unat (index ot) + unat (entries m' lt') + unat (entries m' rt') \<le> length (directory m')"
    "\<forall>j < length (directory m'). directory m' ! j =
              (if unat (index ot) \<le> j \<and> j < unat (index ot) + unat (entries m' lt') then left
               else if unat (index ot) + unat (entries m' lt') \<le> j \<and>
                       j < unat (index ot) + unat (entries m' lt') + unat (entries m' rt') then right
               else directory m ! j)"
    using installLeftRight_final [OF ot lt rt dist ldl ldr deep gd len fit] by blast
  have dl: "dirLen m' = of_nat (length (directory m'))"
    using r(8,9) dir_inv_len(3) [OF inv] by simp
  show ?thesis
    apply (rule exI [of _ m'], rule exI [of _ tabs'], rule exI [of _ ot],
           rule exI [of _ lt'], rule exI [of _ rt'])
    unfolding run
    using False r dl by simp
next
  case True
  define n where "n = length (directory m)"
  have n: "n \<le> 2 ^ 60" "0 < n" "n = 2 ^ unat (globalDepth m)"
    using dir_inv_len [OF inv] inv by (simp_all add: n_def dir_inv_def)
  have g60: "unat (globalDepth m) \<le> 60" using inv by (simp add: dir_inv_def)
  obtain nd where nd:
    "growDirectory m tabs
       = Inr (m\<lparr>globalDepth := globalDepth m + 1, globalShift := globalShift m - 1,
                directory := nd, dirLen := of_nat (2 * n)\<rparr>,
              doubleIndices (directory m) n tabs)"
    "length nd = 2 * n"
    "\<forall>j < 2 * n. nd ! j = directory m ! (j div 2)"
    using growDirectory_doubles [OF inv] unfolding n_def by blast
  define m1 where "m1 = m\<lparr>globalDepth := globalDepth m + 1, globalShift := globalShift m - 1,
                directory := nd, dirLen := of_nat (2 * n)\<rparr>"
  define tabs1 where "tabs1 = doubleIndices (directory m) n tabs"
  define ot1 where "ot1 = ot\<lparr>index := 2 * index ot\<rparr>"
  have s: "unat (index ot) < n"
    using dir_inv_index_at(1) [OF inv old ot] by (simp add: n_def)
  have ot1: "tabs1 old = Some ot1"
    unfolding tabs1_def ot1_def
    using doubleIndices_member [of tabs old ot "directory m" n] ot old s by simp
  obtain lt1 where lt1: "tabs1 left = Some lt1" "localDepth lt1 = localDepth lt"
    unfolding tabs1_def
    using doubleIndices_localDepth [of tabs left lt "directory m" n] lt by blast
  obtain rt1 where rt1: "tabs1 right = Some rt1" "localDepth rt1 = localDepth rt"
    unfolding tabs1_def
    using doubleIndices_localDepth [of tabs right rt "directory m" n] rt by blast
  have ug: "unat (globalDepth m + 1) = Suc (unat (globalDepth m))"
    using unat_succ8 [of "globalDepth m"] g60 by simp
  have ldl1: "localDepth lt1 = localDepth ot1 + 1" and ldr1: "localDepth rt1 = localDepth ot1 + 1"
    using lt1(2) rt1(2) ldl ldr by (simp_all add: ot1_def)
  have deep: "unat (localDepth ot1) < unat (globalDepth m1)"
    using True ug by (simp add: ot1_def m1_def)
  have gd: "unat (globalDepth m1) \<le> 61" using ug g60 by (simp add: m1_def)
  have len: "length (directory m1) < 2 ^ 62" using nd(2) n(1) by (simp add: m1_def)
  have u2: "unat (2 * index ot) = 2 * unat (index ot)"
  proof -
    have "2 * unat (index ot) < 2 ^ 64" using s n(1) by simp
    then have "unat (of_nat (2 * unat (index ot)) :: 64 word) = 2 * unat (index ot)"
      by (rule unat_of_nat64)
    then show ?thesis by simp
  qed
  have fit: "unat (index ot1) + 2 ^ (unat (globalDepth m1) - unat (localDepth ot1))
                \<le> length (directory m1)"
    using s nd(2) True ug u2 by (simp add: ot1_def m1_def)
  have run: "installTableSplit m tabs old left right = installLeftRight m1 tabs1 old left right"
    using True ot nd(1) by (simp add: installTableSplit_def tableAt_def m1_def tabs1_def)
  obtain m' tabs' lt' rt' where r:
    "installLeftRight m1 tabs1 old left right = Inr (m', tabs')"
    "tabs' old = Some ot1" "tabs' left = Some lt'" "tabs' right = Some rt'"
    "localDepth lt' = localDepth lt1" "localDepth rt' = localDepth rt1"
    "globalDepth m' = globalDepth m1" "dirLen m' = dirLen m1"
    "length (directory m') = length (directory m1)"
    "index lt' = index ot1" "index rt' = index ot1 + entries m' lt'"
    "unat (entries m' lt') = 2 ^ (unat (globalDepth m') - unat (localDepth lt'))"
    "unat (entries m' rt') = 2 ^ (unat (globalDepth m') - unat (localDepth rt'))"
    "unat (index ot1) + unat (entries m' lt') + unat (entries m' rt') \<le> length (directory m')"
    "\<forall>j < length (directory m'). directory m' ! j =
              (if unat (index ot1) \<le> j \<and> j < unat (index ot1) + unat (entries m' lt') then left
               else if unat (index ot1) + unat (entries m' lt') \<le> j \<and>
                       j < unat (index ot1) + unat (entries m' lt') + unat (entries m' rt') then right
               else directory m1 ! j)"
    using installLeftRight_final [OF ot1 lt1(1) rt1(1) dist ldl1 ldr1 deep gd len fit] by blast
  have l': "length (directory m') = 2 * n" using r(9) nd(2) by (simp add: m1_def)
  have dl: "dirLen m' = of_nat (length (directory m'))"
    using r(8) l' by (simp add: m1_def)
  have g': "globalDepth m' = globalDepth m + 1" using r(7) by (simp add: m1_def)
  have io: "index ot1 = 2 * index ot" by (simp add: ot1_def)
  have dm: "\<forall>j < length (directory m'). directory m1 ! j = directory m ! (j div 2)"
    using nd(3) l' by (simp add: m1_def)
  have sp: "\<forall>j < length (directory m'). directory m' ! j =
              (if unat (index ot1) \<le> j \<and> j < unat (index ot1) + unat (entries m' lt') then left
               else if unat (index ot1) + unat (entries m' lt') \<le> j \<and>
                       j < unat (index ot1) + unat (entries m' lt') + unat (entries m' rt') then right
               else directory m ! (j div 2))"
    using r(15) dm by simp
  show ?thesis
    apply (rule exI [of _ m'], rule exI [of _ tabs'], rule exI [of _ ot1],
           rule exI [of _ lt'], rule exI [of _ rt'])
    unfolding run
    using True r(1-6,10-14) sp l' dl g' io lt1(2) rt1(2) n_def by simp
qed

theorem installTableSplit_spans_witness:
  "dir_inv dirMap dirTables \<and> 3 \<in> set (directory dirMap) \<and>
   dirTables 3 = Some \<lparr>index = 3, localDepth = 2\<rparr> \<and>
   dirTables 4 = Some \<lparr>index = 0, localDepth = 3\<rparr> \<and>
   dirTables 5 = Some \<lparr>index = 0, localDepth = 3\<rparr> \<and>
   (\<exists>m' tabs'. installTableSplit dirMap dirTables 3 4 5 = Inr (m', tabs') \<and>
      globalDepth m' = 3 \<and> length (directory m') = 8 \<and> dirLen m' = 8 \<and>
      directory m' ! 5 = 2 \<and> directory m' ! 6 = 4 \<and> directory m' ! 7 = 5)"
proof -
  define ot :: table where "ot = \<lparr>index = 3, localDepth = 2\<rparr>"
  define nt :: table where "nt = \<lparr>index = 0, localDepth = 3\<rparr>"
  have h: "3 \<in> set (directory dirMap)" "dirTables 3 = Some ot"
    "dirTables 4 = Some nt" "dirTables 5 = Some nt"
    by (simp_all add: dirMap_def dirTables_def ot_def nt_def)
  have p: "localDepth nt = localDepth ot + 1" "(4::nat) \<noteq> 3" "(5::nat) \<noteq> 3" "(4::nat) \<noteq> 5"
    by (simp_all add: ot_def nt_def)
  have g: "localDepth ot = globalDepth dirMap" by (simp add: ot_def dirMap_def)
  from installTableSplit_spans [of dirMap dirTables 3 ot 4 nt 5 nt,
      OF dir_inv_example h(1) h(2) h(3) p(1) h(4) p(1) p(2) p(3) p(4)]
  obtain m' tabs' and ot' :: table and lt' rt' where r:
    "installTableSplit dirMap dirTables 3 4 5 = Inr (m', tabs')"
    "localDepth lt' = localDepth nt" "localDepth rt' = localDepth nt"
    "globalDepth m' = (if localDepth ot = globalDepth dirMap then globalDepth dirMap + 1
                             else globalDepth dirMap)"
    "length (directory m') = (if localDepth ot = globalDepth dirMap
                                    then 2 * length (directory dirMap) else length (directory dirMap))"
    "dirLen m' = of_nat (length (directory m'))"
    "index ot' = (if localDepth ot = globalDepth dirMap then 2 * index ot else index ot)"
    "unat (entries m' lt') = 2 ^ (unat (globalDepth m') - unat (localDepth lt'))"
    "unat (entries m' rt') = 2 ^ (unat (globalDepth m') - unat (localDepth rt'))"
    "\<forall>j < length (directory m'). directory m' ! j =
              (if unat (index ot') \<le> j \<and> j < unat (index ot') + unat (entries m' lt') then 4
               else if unat (index ot') + unat (entries m' lt') \<le> j \<and>
                       j < unat (index ot') + unat (entries m' lt') + unat (entries m' rt')
                    then 5
               else if localDepth ot = globalDepth dirMap then directory dirMap ! (j div 2)
               else directory dirMap ! j)"
    apply (elim exE conjE)
    subgoal premises q for m' tabs' ot' lt' rt'
      using q(2,6-11,14,15,17) by (rule q(1))
    done
  have gd: "globalDepth m' = 3" using r(4) g by (simp add: dirMap_def)
  have len: "length (directory m') = 8" using r(5) g by (simp add: dirMap_def)
  have dl: "dirLen m' = 8" using r(6) len by simp
  have io: "unat (index ot') = 6" using r(7) g by (simp add: ot_def)
  have e: "unat (entries m' lt') = 1" "unat (entries m' rt') = 1"
    using r(8,9) unfolding r(2,3) gd by (simp_all add: nt_def)
  have d: "directory m' ! 5 = 2" "directory m' ! 6 = 4" "directory m' ! 7 = 5"
    using r(10) g unfolding len io e by (simp_all add: dirMap_def)
  show ?thesis
    using dir_inv_example h r(1) gd len dl d by (simp add: ot_def nt_def)
qed

end
